theory Spec2Isabelle
  imports Main "HOL-Library.Monad_Syntax"
begin

section \<open>Strided two-dimensional views (MatrixWrapper)\<close>

text \<open>
  A \<^verbatim>\<open>his::MatrixWrapper<T>\<close> holds a pointer to the first element and three
  \<^verbatim>\<open>size_t\<close> fields. Pointers are modelled as element addresses (an \<open>int\<close>, counted in
  units of \<open>T\<close>), so that pointer arithmetic is integer arithmetic; \<^verbatim>\<open>size_t\<close> values are
  \<open>nat\<close>, \<^verbatim>\<open>int\<close> values are \<open>int\<close>. Memory is a function from addresses to elements.
  Where the source converts a possibly negative \<^verbatim>\<open>int\<close> to \<^verbatim>\<open>size_t\<close> the reduction
  modulo \<open>2 ^ 64\<close> is written out (\<open>to_size_t\<close>). Where it passes a \<^verbatim>\<open>size_t\<close> to an
  \<^verbatim>\<open>int\<close> parameter, as in \<^verbatim>\<open>mat[y]\<close> with a \<^verbatim>\<open>size_t\<close> counter or in
  \<^verbatim>\<open>Matrix<T> matrix(m_rows, m_cols)\<close>, the value is reduced to the 32 bits of an
  \<^verbatim>\<open>int\<close> (\<open>to_int\<close>): it is kept below \<open>2 ^ 31\<close> and becomes negative from there on. In
  \<^verbatim>\<open>filter\<close>, whose counters are \<^verbatim>\<open>int\<close>, the general theorems assume dimensions
  below \<open>2 ^ 30\<close>, so that no counter and no window bound leaves the range of \<^verbatim>\<open>int\<close>.
\<close>

type_synonym addr = int

record matrix_wrapper =
  m_start :: addr
  m_rows :: nat
  m_cols :: nat
  m_step :: nat

type_synonym 'a memory = "addr \<Rightarrow> 'a"

definition to_size_t :: "int \<Rightarrow> nat" where
  "to_size_t i = nat (i mod 2 ^ 64)"

text \<open>
  The value of an integer expression as a 32 bit \<^verbatim>\<open>int\<close>: the conversion of a
  \<^verbatim>\<open>size_t\<close> to \<^verbatim>\<open>int\<close>, and the two's complement result of an \<^verbatim>\<open>int\<close> product
  that overflows.
\<close>

definition to_int :: "int \<Rightarrow> int" where
  "to_int v = (v + 2 ^ 31) mod 2 ^ 32 - 2 ^ 31"

text \<open>
  \<^verbatim>\<open>T *operator [](int y) { return m_start + m_step * y; }\<close>
  The offset is added to the pointer as a signed number of elements, also for the
  negative row indices that the class documents.
\<close>

definition row_ptr :: "matrix_wrapper \<Rightarrow> int \<Rightarrow> addr" where
  "row_ptr m y = m_start m + int (m_step m) * y"

text \<open>\<^verbatim>\<open>T &operator ()(int y, int x) { return (*this)[y][x]; }\<close>\<close>

definition elem :: "matrix_wrapper \<Rightarrow> int \<Rightarrow> int \<Rightarrow> addr" where
  "elem m y x = row_ptr m y + x"

definition mem_write :: "'a memory \<Rightarrow> addr \<Rightarrow> 'a \<Rightarrow> 'a memory" where
  "mem_write h a v = h(a := v)"

subsection \<open>set: initialise all elements\<close>

text \<open>
  \<^verbatim>\<open>
  void set(const T &init_val)
  {
      for (size_t y = 0; y < rows(); ++y)
          for (size_t x = 0; x < rows(); ++x)
              (*this)[y][x] = init_val;
  }
  \<close>
  Both loops are bounded by \<^verbatim>\<open>rows()\<close>, as the source has it. The row pointer
  \<^verbatim>\<open>(*this)[y]\<close> takes the \<^verbatim>\<open>size_t\<close> counter through the \<^verbatim>\<open>int\<close> parameter of
  \<^verbatim>\<open>operator[]\<close>; the column index is applied to the pointer as it is.
\<close>

function set_cols :: "matrix_wrapper \<Rightarrow> 'a \<Rightarrow> nat \<Rightarrow> nat \<Rightarrow> 'a memory \<Rightarrow> 'a memory" where
  "set_cols m init_val y x h =
     (if x < m_rows m
      then set_cols m init_val y (x + 1)
             (mem_write h (row_ptr m (to_int (int y)) + int x) init_val)
      else h)"
  by pat_completeness auto
termination
  by (relation "measure (\<lambda>(m, v, y, x, h). m_rows m - x)") auto

declare set_cols.simps [simp del]

function set_rows :: "matrix_wrapper \<Rightarrow> 'a \<Rightarrow> nat \<Rightarrow> 'a memory \<Rightarrow> 'a memory" where
  "set_rows m init_val y h =
     (if y < m_rows m
      then set_rows m init_val (y + 1) (set_cols m init_val y 0 h)
      else h)"
  by pat_completeness auto
termination
  by (relation "measure (\<lambda>(m, v, y, h). m_rows m - y)") auto

declare set_rows.simps [simp del]

definition set_all :: "matrix_wrapper \<Rightarrow> 'a \<Rightarrow> 'a memory \<Rightarrow> 'a memory" where
  "set_all m init_val h = set_rows m init_val 0 h"


subsection \<open>Assertions\<close>

text \<open>
  The source checks its preconditions with \<^verbatim>\<open>assert\<close> only. In a build without
  \<^verbatim>\<open>NDEBUG\<close> a failed assertion aborts the call: the model returns \<open>None\<close>. With
  \<^verbatim>\<open>NDEBUG\<close> defined the check is compiled out and the call goes on. The flag
  \<open>ndebug\<close> says which build is meant.
\<close>

definition assert_that :: "bool \<Rightarrow> bool \<Rightarrow> unit option" where
  "assert_that ndebug c = (if ndebug \<or> c then Some () else None)"

definition same_shape :: "matrix_wrapper \<Rightarrow> matrix_wrapper \<Rightarrow> bool" where
  "same_shape m1 m2 = (m_rows m1 = m_rows m2 \<and> m_cols m1 = m_cols m2)"

subsection \<open>crop\<close>

text \<open>
  \<^verbatim>\<open>
  MatrixWrapper crop(int top, int left, size_t rows, size_t cols) const
  {
      assert(top + rows <= m_rows && left + cols <= m_cols);
      MatrixWrapper<T> sub(m_start, rows, cols, step());
      sub.m_start = m_start + m_step * top + left;
      return sub;
  }
  \<close>
  In the assertion \<^verbatim>\<open>top + rows\<close> is computed in \<^verbatim>\<open>size_t\<close>: the \<^verbatim>\<open>int\<close> is converted
  first, and the sum wraps. The new start is pointer arithmetic, which is exact on
  addresses.
\<close>

definition crop ::
  "bool \<Rightarrow> matrix_wrapper \<Rightarrow> int \<Rightarrow> int \<Rightarrow> nat \<Rightarrow> nat \<Rightarrow> matrix_wrapper option" where
  "crop ndebug m tp lf rows cols = do {
     _ \<leftarrow> assert_that ndebug
            (to_size_t (tp + int rows) \<le> m_rows m \<and> to_size_t (lf + int cols) \<le> m_cols m);
     Some \<lparr>m_start = m_start m + int (m_step m) * tp + lf,
           m_rows = rows, m_cols = cols, m_step = m_step m\<rparr>
   }"

section \<open>Elementwise iteration (for_each)\<close>

text \<open>
  \<^verbatim>\<open>
  for (size_t y = 0; y < mat.rows(); ++y)
  {
      auto p = mat[y];
      for (size_t x = 0; x < mat.cols(); ++x)
      {
          func(*p);
          p += 1;
      }
  }
  \<close>
  The functor receives a reference to the element, that is its address, and acts on a
  state of the caller's choosing (the memory and whatever the closure captures). In
  \<^verbatim>\<open>mat[y]\<close> the \<^verbatim>\<open>size_t\<close> counter is converted to the \<^verbatim>\<open>int\<close> parameter of
  \<^verbatim>\<open>operator[]\<close>.
\<close>

function for_each_cols :: "nat \<Rightarrow> nat \<Rightarrow> addr \<Rightarrow> (addr \<Rightarrow> 's \<Rightarrow> 's) \<Rightarrow> 's \<Rightarrow> 's" where
  "for_each_cols x cols p func s =
     (if x < cols then for_each_cols (x + 1) cols (p + 1) func (func p s) else s)"
  by pat_completeness auto
termination
  by (relation "measure (\<lambda>(x, cols, p, func, s). cols - x)") auto

declare for_each_cols.simps [simp del]

function for_each_rows :: "nat \<Rightarrow> matrix_wrapper \<Rightarrow> (addr \<Rightarrow> 's \<Rightarrow> 's) \<Rightarrow> 's \<Rightarrow> 's" where
  "for_each_rows y mat func s =
     (if y < m_rows mat
      then for_each_rows (y + 1) mat func
             (for_each_cols 0 (m_cols mat) (row_ptr mat (to_int (int y))) func s)
      else s)"
  by pat_completeness auto
termination
  by (relation "measure (\<lambda>(y, mat, func, s). m_rows mat - y)") auto

declare for_each_rows.simps [simp del]

definition for_each :: "matrix_wrapper \<Rightarrow> (addr \<Rightarrow> 's \<Rightarrow> 's) \<Rightarrow> 's \<Rightarrow> 's" where
  "for_each mat func s = for_each_rows 0 mat func s"

text \<open>Two matrices: the shapes are asserted equal, the loops run over the first one's.\<close>

function for_each_cols2 ::
  "nat \<Rightarrow> nat \<Rightarrow> addr \<Rightarrow> addr \<Rightarrow> (addr \<Rightarrow> addr \<Rightarrow> 's \<Rightarrow> 's) \<Rightarrow> 's \<Rightarrow> 's" where
  "for_each_cols2 x cols p1 p2 func s =
     (if x < cols then for_each_cols2 (x + 1) cols (p1 + 1) (p2 + 1) func (func p1 p2 s)
      else s)"
  by pat_completeness auto
termination
  by (relation "measure (\<lambda>(x, cols, p1, p2, func, s). cols - x)") auto

declare for_each_cols2.simps [simp del]

function for_each_rows2 ::
  "nat \<Rightarrow> matrix_wrapper \<Rightarrow> matrix_wrapper \<Rightarrow> (addr \<Rightarrow> addr \<Rightarrow> 's \<Rightarrow> 's) \<Rightarrow> 's \<Rightarrow> 's" where
  "for_each_rows2 y mat1 mat2 func s =
     (if y < m_rows mat1
      then for_each_rows2 (y + 1) mat1 mat2 func
             (for_each_cols2 0 (m_cols mat1) (row_ptr mat1 (to_int (int y)))
                (row_ptr mat2 (to_int (int y))) func s)
      else s)"
  by pat_completeness auto
termination
  by (relation "measure (\<lambda>(y, mat1, mat2, func, s). m_rows mat1 - y)") auto

declare for_each_rows2.simps [simp del]

definition for_each2 ::
  "bool \<Rightarrow> matrix_wrapper \<Rightarrow> matrix_wrapper \<Rightarrow> (addr \<Rightarrow> addr \<Rightarrow> 's \<Rightarrow> 's) \<Rightarrow> 's \<Rightarrow> 's option" where
  "for_each2 ndebug mat1 mat2 func s = do {
     _ \<leftarrow> assert_that ndebug (m_rows mat1 = m_rows mat2 \<and> m_cols mat1 = m_cols mat2);
     Some (for_each_rows2 0 mat1 mat2 func s)
   }"

text \<open>Three matrices.\<close>

function for_each_cols3 ::
  "nat \<Rightarrow> nat \<Rightarrow> addr \<Rightarrow> addr \<Rightarrow> addr \<Rightarrow> (addr \<Rightarrow> addr \<Rightarrow> addr \<Rightarrow> 's \<Rightarrow> 's) \<Rightarrow> 's \<Rightarrow> 's" where
  "for_each_cols3 x cols p1 p2 p3 func s =
     (if x < cols
      then for_each_cols3 (x + 1) cols (p1 + 1) (p2 + 1) (p3 + 1) func (func p1 p2 p3 s)
      else s)"
  by pat_completeness auto
termination
  by (relation "measure (\<lambda>(x, cols, p1, p2, p3, func, s). cols - x)") auto

declare for_each_cols3.simps [simp del]

function for_each_rows3 ::
  "nat \<Rightarrow> matrix_wrapper \<Rightarrow> matrix_wrapper \<Rightarrow> matrix_wrapper \<Rightarrow>
   (addr \<Rightarrow> addr \<Rightarrow> addr \<Rightarrow> 's \<Rightarrow> 's) \<Rightarrow> 's \<Rightarrow> 's" where
  "for_each_rows3 y mat1 mat2 mat3 func s =
     (if y < m_rows mat1
      then for_each_rows3 (y + 1) mat1 mat2 mat3 func
             (for_each_cols3 0 (m_cols mat1) (row_ptr mat1 (to_int (int y)))
                (row_ptr mat2 (to_int (int y))) (row_ptr mat3 (to_int (int y))) func s)
      else s)"
  by pat_completeness auto
termination
  by (relation "measure (\<lambda>(y, mat1, mat2, mat3, func, s). m_rows mat1 - y)") auto

declare for_each_rows3.simps [simp del]

definition for_each3 ::
  "bool \<Rightarrow> matrix_wrapper \<Rightarrow> matrix_wrapper \<Rightarrow> matrix_wrapper \<Rightarrow>
   (addr \<Rightarrow> addr \<Rightarrow> addr \<Rightarrow> 's \<Rightarrow> 's) \<Rightarrow> 's \<Rightarrow> 's option" where
  "for_each3 ndebug mat1 mat2 mat3 func s = do {
     _ \<leftarrow> assert_that ndebug (m_rows mat1 = m_rows mat2 \<and> m_cols mat1 = m_cols mat2);
     _ \<leftarrow> assert_that ndebug (m_rows mat1 = m_rows mat3 \<and> m_cols mat1 = m_cols mat3);
     Some (for_each_rows3 0 mat1 mat2 mat3 func s)
   }"

text \<open>Four matrices.\<close>

function for_each_cols4 ::
  "nat \<Rightarrow> nat \<Rightarrow> addr \<Rightarrow> addr \<Rightarrow> addr \<Rightarrow> addr \<Rightarrow>
   (addr \<Rightarrow> addr \<Rightarrow> addr \<Rightarrow> addr \<Rightarrow> 's \<Rightarrow> 's) \<Rightarrow> 's \<Rightarrow> 's" where
  "for_each_cols4 x cols p1 p2 p3 p4 func s =
     (if x < cols
      then for_each_cols4 (x + 1) cols (p1 + 1) (p2 + 1) (p3 + 1) (p4 + 1) func
             (func p1 p2 p3 p4 s)
      else s)"
  by pat_completeness auto
termination
  by (relation "measure (\<lambda>(x, cols, p1, p2, p3, p4, func, s). cols - x)") auto

declare for_each_cols4.simps [simp del]

function for_each_rows4 ::
  "nat \<Rightarrow> matrix_wrapper \<Rightarrow> matrix_wrapper \<Rightarrow> matrix_wrapper \<Rightarrow> matrix_wrapper \<Rightarrow>
   (addr \<Rightarrow> addr \<Rightarrow> addr \<Rightarrow> addr \<Rightarrow> 's \<Rightarrow> 's) \<Rightarrow> 's \<Rightarrow> 's" where
  "for_each_rows4 y mat1 mat2 mat3 mat4 func s =
     (if y < m_rows mat1
      then for_each_rows4 (y + 1) mat1 mat2 mat3 mat4 func
             (for_each_cols4 0 (m_cols mat1) (row_ptr mat1 (to_int (int y)))
                (row_ptr mat2 (to_int (int y))) (row_ptr mat3 (to_int (int y)))
                (row_ptr mat4 (to_int (int y))) func s)
      else s)"
  by pat_completeness auto
termination
  by (relation "measure (\<lambda>(y, mat1, mat2, mat3, mat4, func, s). m_rows mat1 - y)") auto

declare for_each_rows4.simps [simp del]

definition for_each4 ::
  "bool \<Rightarrow> matrix_wrapper \<Rightarrow> matrix_wrapper \<Rightarrow> matrix_wrapper \<Rightarrow> matrix_wrapper \<Rightarrow>
   (addr \<Rightarrow> addr \<Rightarrow> addr \<Rightarrow> addr \<Rightarrow> 's \<Rightarrow> 's) \<Rightarrow> 's \<Rightarrow> 's option" where
  "for_each4 ndebug mat1 mat2 mat3 mat4 func s = do {
     _ \<leftarrow> assert_that ndebug (m_rows mat1 = m_rows mat2 \<and> m_cols mat1 = m_cols mat2);
     _ \<leftarrow> assert_that ndebug (m_rows mat1 = m_rows mat3 \<and> m_cols mat1 = m_cols mat3);
     _ \<leftarrow> assert_that ndebug (m_rows mat1 = m_rows mat4 \<and> m_cols mat1 = m_cols mat4);
     Some (for_each_rows4 0 mat1 mat2 mat3 mat4 func s)
   }"


section \<open>Pairwise iteration (for_each_pair)\<close>

text \<open>
  \<^verbatim>\<open>
  // first column
  auto up = mat[0];
  auto down = mat[1];
  for (size_t y = 1; y < mat.rows(); ++y)
  {
      func(*up, *down);
      up += mat.step(), down += mat.step();
  }
  \<close>
\<close>

function pair_first_column ::
  "nat \<Rightarrow> matrix_wrapper \<Rightarrow> addr \<Rightarrow> addr \<Rightarrow> (addr \<Rightarrow> addr \<Rightarrow> 's \<Rightarrow> 's) \<Rightarrow> 's \<Rightarrow> 's" where
  "pair_first_column y mat up down func s =
     (if y < m_rows mat
      then pair_first_column (y + 1) mat (up + int (m_step mat)) (down + int (m_step mat)) func
             (func up down s)
      else s)"
  by pat_completeness auto
termination
  by (relation "measure (\<lambda>(y, mat, up, down, func, s). m_rows mat - y)") auto

declare pair_first_column.simps [simp del]

text \<open>
  \<^verbatim>\<open>
  // first row
  auto left = mat[0];
  auto right = mat[0] + 1;
  for (size_t x = 1; x < mat.cols(); ++x)
  {
      func(*left, *right);
      left += 1, right += 1;
  }
  \<close>
\<close>

function pair_first_row ::
  "nat \<Rightarrow> matrix_wrapper \<Rightarrow> addr \<Rightarrow> addr \<Rightarrow> (addr \<Rightarrow> addr \<Rightarrow> 's \<Rightarrow> 's) \<Rightarrow> 's \<Rightarrow> 's" where
  "pair_first_row x mat left right func s =
     (if x < m_cols mat
      then pair_first_row (x + 1) mat (left + 1) (right + 1) func (func left right s)
      else s)"
  by pat_completeness auto
termination
  by (relation "measure (\<lambda>(x, mat, left, right, func, s). m_cols mat - x)") auto

declare pair_first_row.simps [simp del]

text \<open>
  \<^verbatim>\<open>
  // the rest
  for (size_t y = 1; y < mat.rows(); ++y)
  {
      auto up = mat[y - 1] + 1;
      auto left = mat[y];
      auto center = mat[y] + 1;
      for (size_t x = 1; x < mat.cols(); ++x)
      {
          func(*up, *center);
          func(*left, *center);
          up += 1, left += 1, center += 1;
      }
  }
  \<close>
  Here \<^verbatim>\<open>mat[y - 1]\<close> and \<^verbatim>\<open>mat[y]\<close> take the \<^verbatim>\<open>size_t\<close> counter through the \<^verbatim>\<open>int\<close>
  parameter of \<^verbatim>\<open>operator[]\<close>; the first column steps its two pointers by
  \<^verbatim>\<open>mat.step()\<close> and converts nothing.
\<close>

function pair_rest_cols ::
  "nat \<Rightarrow> matrix_wrapper \<Rightarrow> addr \<Rightarrow> addr \<Rightarrow> addr \<Rightarrow> (addr \<Rightarrow> addr \<Rightarrow> 's \<Rightarrow> 's) \<Rightarrow> 's \<Rightarrow> 's" where
  "pair_rest_cols x mat up left center func s =
     (if x < m_cols mat
      then pair_rest_cols (x + 1) mat (up + 1) (left + 1) (center + 1) func
             (func left center (func up center s))
      else s)"
  by pat_completeness auto
termination
  by (relation "measure (\<lambda>(x, mat, up, left, center, func, s). m_cols mat - x)") auto

declare pair_rest_cols.simps [simp del]

function pair_rest_rows ::
  "nat \<Rightarrow> matrix_wrapper \<Rightarrow> (addr \<Rightarrow> addr \<Rightarrow> 's \<Rightarrow> 's) \<Rightarrow> 's \<Rightarrow> 's" where
  "pair_rest_rows y mat func s =
     (if y < m_rows mat
      then pair_rest_rows (y + 1) mat func
             (pair_rest_cols 1 mat (row_ptr mat (to_int (int y - 1)) + 1)
                (row_ptr mat (to_int (int y))) (row_ptr mat (to_int (int y)) + 1) func s)
      else s)"
  by pat_completeness auto
termination
  by (relation "measure (\<lambda>(y, mat, func, s). m_rows mat - y)") auto

declare pair_rest_rows.simps [simp del]

definition for_each_pair :: "matrix_wrapper \<Rightarrow> (addr \<Rightarrow> addr \<Rightarrow> 's \<Rightarrow> 's) \<Rightarrow> 's \<Rightarrow> 's" where
  "for_each_pair mat func s =
     (let s1 = pair_first_column 1 mat (row_ptr mat 0) (row_ptr mat 1) func s;
          s2 = pair_first_row 1 mat (row_ptr mat 0) (row_ptr mat 0 + 1) func s1
      in pair_rest_rows 1 mat func s2)"




























section \<open>Owned matrices (Matrix): allocation, copy_to and clone\<close>

text \<open>
  A heap is the memory together with the allocation frontier: every address below
  \<open>next_free\<close> may belong to a live buffer, and \<^verbatim>\<open>new T[n]\<close> hands out the next \<open>n\<close>
  addresses. Nothing is freed: the \<^verbatim>\<open>shared_ptr\<close> of a Matrix only decides when its
  buffer is released, so a Matrix is its view.
\<close>

record 'a heap =
  contents :: "'a memory"
  next_free :: addr

definition new_array :: "nat \<Rightarrow> 'a heap \<Rightarrow> addr \<times> 'a heap" where
  "new_array n h = (next_free h, h\<lparr>next_free := next_free h + int n\<rparr>)"

text \<open>
  \<^verbatim>\<open>
  void create(int rows, int cols)
  {
      this->m_rows = rows, this->m_cols = this->m_step = cols;
      m_data = std::shared_ptr<T>(new T[rows * cols], [](const T *p) { delete []p;});
      this->m_start = m_data.get();
  }
  \<close>
  The element count \<^verbatim>\<open>rows * cols\<close> is an \<^verbatim>\<open>int\<close> product, taken in 32 bits. A
  negative count makes the \<^verbatim>\<open>new\<close> expression throw \<^verbatim>\<open>std::bad_array_new_length\<close>: the
  constructor does not return, which is the result \<open>None\<close>. The fields are \<^verbatim>\<open>size_t\<close>
  and receive the converted \<^verbatim>\<open>int\<close> arguments.
\<close>

definition create :: "int \<Rightarrow> int \<Rightarrow> 'a heap \<Rightarrow> (matrix_wrapper \<times> 'a heap) option" where
  "create rows cols h =
     (let n = to_int (rows * cols)
      in if n < 0 then None
         else (let (p, h') = new_array (nat n) h
               in Some (\<lparr>m_start = p, m_rows = to_size_t rows, m_cols = to_size_t cols,
                          m_step = to_size_t cols\<rparr>, h')))"

text \<open>\<^verbatim>\<open>memcpy(dst, src, n * sizeof(T))\<close>: \<open>n\<close> elements, read from the memory before the call.\<close>

definition memcpy :: "'a memory \<Rightarrow> addr \<Rightarrow> addr \<Rightarrow> nat \<Rightarrow> 'a memory" where
  "memcpy h dst src n = (\<lambda>a. if dst \<le> a \<and> a < dst + int n then h (src + (a - dst)) else h a)"

text \<open>
  \<^verbatim>\<open>
  void copy_to(MatrixWrapper &dst) const
  {
      assert(dst.rows() == rows() && dst.cols() == cols());
      for (size_t y = 0; y < rows(); ++y)
          memcpy(dst[y], (*this)[y], m_cols * sizeof(T));
  }
  \<close>
  Both row pointers take the \<^verbatim>\<open>size_t\<close> counter through the \<^verbatim>\<open>int\<close> parameter of
  \<^verbatim>\<open>operator[]\<close>.
\<close>

function copy_rows :: "nat \<Rightarrow> matrix_wrapper \<Rightarrow> matrix_wrapper \<Rightarrow> 'a memory \<Rightarrow> 'a memory" where
  "copy_rows y src dst h =
     (if y < m_rows src
      then copy_rows (y + 1) src dst
             (memcpy h (row_ptr dst (to_int (int y))) (row_ptr src (to_int (int y)))
                (m_cols src))
      else h)"
  by pat_completeness auto
termination
  by (relation "measure (\<lambda>(y, src, dst, h). m_rows src - y)") auto

declare copy_rows.simps [simp del]

definition copy_to ::
  "bool \<Rightarrow> matrix_wrapper \<Rightarrow> matrix_wrapper \<Rightarrow> 'a memory \<Rightarrow> 'a memory option" where
  "copy_to ndebug src dst h = do {
     _ \<leftarrow> assert_that ndebug (m_rows dst = m_rows src \<and> m_cols dst = m_cols src);
     Some (copy_rows 0 src dst h)
   }"

text \<open>
  \<^verbatim>\<open>
  Matrix<T> clone() const
  {
      Matrix<T> matrix(m_rows, m_cols);
      copy_to(matrix);
      return matrix;
  }
  \<close>
  The constructor \<^verbatim>\<open>Matrix(int rows, int cols)\<close> calls \<^verbatim>\<open>create(rows, cols)\<close>: the
  \<^verbatim>\<open>size_t\<close> fields \<^verbatim>\<open>m_rows\<close> and \<^verbatim>\<open>m_cols\<close> are converted to its \<^verbatim>\<open>int\<close>
  parameters. The result is \<open>None\<close> when the constructor throws or the assertion of
  \<^verbatim>\<open>copy_to\<close> fails.
\<close>

definition clone :: "bool \<Rightarrow> matrix_wrapper \<Rightarrow> 'a heap \<Rightarrow> (matrix_wrapper \<times> 'a heap) option" where
  "clone ndebug m h = do {
     (matrix, h1) \<leftarrow> create (to_int (int (m_rows m))) (to_int (int (m_cols m))) h;
     c \<leftarrow> copy_to ndebug m matrix (contents h1);
     Some (matrix, h1\<lparr>contents := c\<rparr>)
   }"


section \<open>Window filtering (filter)\<close>

text \<open>
  A counting loop \<^verbatim>\<open>for (int i = lo; i < n; ++i) body(i)\<close> whose bound \<open>n\<close> is a
  \<^verbatim>\<open>size_t\<close>: the comparison converts the counter to \<^verbatim>\<open>size_t\<close>, so a negative
  counter compares as a huge value and ends the loop. A body that aborts ends the run.
\<close>

function for_int :: "int \<Rightarrow> nat \<Rightarrow> (int \<Rightarrow> 's \<Rightarrow> 's option) \<Rightarrow> 's \<Rightarrow> 's option" where
  "for_int i n body s =
     (if 0 \<le> i \<and> i < int n
      then (case body i s of None \<Rightarrow> None | Some s' \<Rightarrow> for_int (i + 1) n body s')
      else Some s)"
  by pat_completeness auto
termination
  by (relation "measure (\<lambda>(i, n, body, s). nat (int n - i))") auto

declare for_int.simps [simp del]

text \<open>
  \<^verbatim>\<open>
  auto parse_with_check = [&](int x, int y)
  {
      // The kernel need to be cropped at the boundary
      int x0 = std::max<int>(x - kernel.cols() / 2, 0);
      int x1 = std::min<int>(x + kernel.cols() / 2 + 1, input.cols());
      int y0 = std::max<int>(y - kernel.rows() / 2, 0);
      int y1 = std::min<int>(y + kernel.rows() / 2 + 1, input.rows());

      his::for_each(input.crop(y0, x0, y1 - y0, x1 - x0),
          kernel.crop(y0 - y + kernel.rows()/2, x0 - x + kernel.cols()/2, y1 - y0, x1 - x0),
          accm);

      eval(output(y, x));
  };
  \<close>
  The accumulate functor takes the addresses of an input element and of a kernel
  element, the evaluate functor the address of an output element. The arguments of
  \<^verbatim>\<open>std::max<int>\<close> and \<^verbatim>\<open>std::min<int>\<close> and the offsets passed to \<^verbatim>\<open>crop\<close> are
  \<^verbatim>\<open>size_t\<close> expressions converted to \<^verbatim>\<open>int\<close>; the sizes passed to \<^verbatim>\<open>crop\<close> are
  \<^verbatim>\<open>int\<close> differences converted to \<^verbatim>\<open>size_t\<close>.
\<close>

definition parse_with_check ::
  "bool \<Rightarrow> matrix_wrapper \<Rightarrow> matrix_wrapper \<Rightarrow> matrix_wrapper \<Rightarrow>
   (addr \<Rightarrow> addr \<Rightarrow> 's \<Rightarrow> 's) \<Rightarrow> (addr \<Rightarrow> 's \<Rightarrow> 's) \<Rightarrow> int \<Rightarrow> int \<Rightarrow> 's \<Rightarrow> 's option" where
  "parse_with_check ndebug input output kern accm eval x y s =
     (let x0 = max (to_int (x - int (m_cols kern div 2))) 0;
          x1 = min (to_int (x + int (m_cols kern div 2) + 1)) (to_int (int (m_cols input)));
          y0 = max (to_int (y - int (m_rows kern div 2))) 0;
          y1 = min (to_int (y + int (m_rows kern div 2) + 1)) (to_int (int (m_rows input)))
      in do {
        window \<leftarrow> crop ndebug input y0 x0 (to_size_t (y1 - y0)) (to_size_t (x1 - x0));
        weights \<leftarrow> crop ndebug kern (to_int (y0 - y + int (m_rows kern div 2)))
                     (to_int (x0 - x + int (m_cols kern div 2)))
                     (to_size_t (y1 - y0)) (to_size_t (x1 - x0));
        s' \<leftarrow> for_each2 ndebug window weights accm s;
        Some (eval (elem output y x) s')
      })"

text \<open>
  The body of the central loop:
  \<^verbatim>\<open>
  his::for_each(input.crop(y - kernel.rows()/2, x - kernel.cols()/2, kernel.rows(), kernel.cols()),
      kernel, accm);
  eval(output(y, x));
  \<close>
\<close>

definition parse_central ::
  "bool \<Rightarrow> matrix_wrapper \<Rightarrow> matrix_wrapper \<Rightarrow> matrix_wrapper \<Rightarrow>
   (addr \<Rightarrow> addr \<Rightarrow> 's \<Rightarrow> 's) \<Rightarrow> (addr \<Rightarrow> 's \<Rightarrow> 's) \<Rightarrow> int \<Rightarrow> int \<Rightarrow> 's \<Rightarrow> 's option" where
  "parse_central ndebug input output kern accm eval x y s = do {
     window \<leftarrow> crop ndebug input (to_int (y - int (m_rows kern div 2)))
                  (to_int (x - int (m_cols kern div 2))) (m_rows kern) (m_cols kern);
     s' \<leftarrow> for_each2 ndebug window kern accm s;
     Some (eval (elem output y x) s')
   }"

text \<open>
  \<^verbatim>\<open>
  assert(kernel.rows() % 2 == 1 && kernel.cols() % 2 == 1);
  assert(kernel.rows()*2+1 < input.rows() && kernel.cols()*2+1 < input.cols());
  assert(input.rows() == output.rows() && input.cols() == output.cols());
  // top
  for (int y = 0; y < kernel.rows()/2; ++y)
      for (int x = 0; x < input.cols(); ++x)
          parse_with_check(x, y);
  // bottom
  for (int y = input.rows() - kernel.rows()/2; y < input.rows(); ++y)
      for (int x = 0; x < input.cols(); ++x)
          parse_with_check(x, y);
  // left
  for (int y = kernel.rows()/2; y < input.rows() - kernel.rows()/2; ++y)
      for (int x = 0; x < kernel.rows()/2; ++x)
          parse_with_check(x, y);
  // right
  for (int y = kernel.rows()/2; y < input.rows() - kernel.rows()/2; ++y)
      for (int x = input.cols() - kernel.rows()/2; x < input.cols(); ++x)
          parse_with_check(x, y);
  // central part, no boundary checks
  for (int y = kernel.rows()/2; y < input.rows() - kernel.rows()/2; ++y)
      for (int x = kernel.cols()/2; x < input.cols() - kernel.cols()/2; ++x)
          { ... }
  \<close>
  The left and the right band take their width from \<^verbatim>\<open>kernel.rows()/2\<close>, as the source
  has it. The loop bounds are \<^verbatim>\<open>size_t\<close> expressions, a difference wraps; the initial
  values of the \<^verbatim>\<open>int\<close> counters are \<^verbatim>\<open>size_t\<close> expressions converted to \<^verbatim>\<open>int\<close>.
\<close>

definition filter_2d ::
  "bool \<Rightarrow> matrix_wrapper \<Rightarrow> matrix_wrapper \<Rightarrow> matrix_wrapper \<Rightarrow>
   (addr \<Rightarrow> addr \<Rightarrow> 's \<Rightarrow> 's) \<Rightarrow> (addr \<Rightarrow> 's \<Rightarrow> 's) \<Rightarrow> 's \<Rightarrow> 's option" where
  "filter_2d ndebug input output kern accm eval s =
     (let checked = parse_with_check ndebug input output kern accm eval;
          central = parse_central ndebug input output kern accm eval;
          rows = m_rows input; cols = m_cols input;
          kr = m_rows kern div 2; kc = m_cols kern div 2
      in do {
        _ \<leftarrow> assert_that ndebug (m_rows kern mod 2 = 1 \<and> m_cols kern mod 2 = 1);
        _ \<leftarrow> assert_that ndebug
               (m_rows kern * 2 + 1 < m_rows input \<and> m_cols kern * 2 + 1 < m_cols input);
        _ \<leftarrow> assert_that ndebug
               (m_rows input = m_rows output \<and> m_cols input = m_cols output);
        s1 \<leftarrow> for_int 0 kr (\<lambda>y. for_int 0 cols (\<lambda>x. checked x y)) s;
        s2 \<leftarrow> for_int (to_int (int rows - int kr)) rows
                (\<lambda>y. for_int 0 cols (\<lambda>x. checked x y)) s1;
        s3 \<leftarrow> for_int (to_int (int kr)) (to_size_t (int rows - int kr))
                (\<lambda>y. for_int 0 kr (\<lambda>x. checked x y)) s2;
        s4 \<leftarrow> for_int (to_int (int kr)) (to_size_t (int rows - int kr))
                (\<lambda>y. for_int (to_int (int cols - int kr)) cols (\<lambda>x. checked x y)) s3;
        for_int (to_int (int kr)) (to_size_t (int rows - int kr))
          (\<lambda>y. for_int (to_int (int kc)) (to_size_t (int cols - int kc)) (\<lambda>x. central x y)) s4
      })"

subsection \<open>The Gaussian kernel generator\<close>

text \<open>
  \<^verbatim>\<open>
  his::Matrix<T> kernel(rows, cols);
  double factor = 0.5 / (sigma * sigma);
  for (int dy = 0; dy <= rows/2; ++dy)
  {
      for (int dx = 0; dx <= cols/2; ++dx)
      {
          double w = exp(-factor * (dx*dx+dy*dy));
          kernel(rows/2-dy, rows/2-dx) = T(w);
          kernel(rows/2-dy, rows/2+dx) = T(w);
          kernel(rows/2+dy, rows/2+dx) = T(w);
          kernel(rows/2+dy, rows/2-dx) = T(w);
      }
  }
  return kernel;
  \<close>
  The floating point value \<^verbatim>\<open>T(exp(-factor * d))\<close> of a squared distance \<open>d\<close> is a
  parameter \<open>weight d\<close>: the generator's cell arithmetic is what is modelled. All four
  writes take the centre column from \<^verbatim>\<open>rows/2\<close>, as the source has it. The division of
  \<^verbatim>\<open>int\<close> truncates towards zero. The result is \<open>None\<close> when the constructor of the
  kernel throws.
\<close>

definition c_div :: "int \<Rightarrow> int \<Rightarrow> int" where
  "c_div a b = sgn a * sgn b * (\<bar>a\<bar> div \<bar>b\<bar>)"

function gaussian_cols ::
  "int \<Rightarrow> int \<Rightarrow> (int \<Rightarrow> 'a) \<Rightarrow> matrix_wrapper \<Rightarrow> int \<Rightarrow> int \<Rightarrow> 'a memory \<Rightarrow> 'a memory" where
  "gaussian_cols rows cols weight kern dy dx h =
     (if dx \<le> c_div cols 2
      then (let w = weight (dx * dx + dy * dy);
                h1 = mem_write h (elem kern (c_div rows 2 - dy) (c_div rows 2 - dx)) w;
                h2 = mem_write h1 (elem kern (c_div rows 2 - dy) (c_div rows 2 + dx)) w;
                h3 = mem_write h2 (elem kern (c_div rows 2 + dy) (c_div rows 2 + dx)) w;
                h4 = mem_write h3 (elem kern (c_div rows 2 + dy) (c_div rows 2 - dx)) w
            in gaussian_cols rows cols weight kern dy (dx + 1) h4)
      else h)"
  by pat_completeness auto
termination
  by (relation "measure (\<lambda>(rows, cols, weight, kern, dy, dx, h). nat (c_div cols 2 + 1 - dx))")
    auto

declare gaussian_cols.simps [simp del]

function gaussian_rows ::
  "int \<Rightarrow> int \<Rightarrow> (int \<Rightarrow> 'a) \<Rightarrow> matrix_wrapper \<Rightarrow> int \<Rightarrow> 'a memory \<Rightarrow> 'a memory" where
  "gaussian_rows rows cols weight kern dy h =
     (if dy \<le> c_div rows 2
      then gaussian_rows rows cols weight kern (dy + 1)
             (gaussian_cols rows cols weight kern dy 0 h)
      else h)"
  by pat_completeness auto
termination
  by (relation "measure (\<lambda>(rows, cols, weight, kern, dy, h). nat (c_div rows 2 + 1 - dy))")
    auto

declare gaussian_rows.simps [simp del]

definition gaussian_kernel ::
  "int \<Rightarrow> int \<Rightarrow> (int \<Rightarrow> 'a) \<Rightarrow> 'a heap \<Rightarrow> (matrix_wrapper \<times> 'a heap) option" where
  "gaussian_kernel rows cols weight h = do {
     (kern, h1) \<leftarrow> create rows cols h;
     Some (kern, h1\<lparr>contents := gaussian_rows rows cols weight kern 0 (contents h1)\<rparr>)
   }"


section \<open>Observing a run\<close>

text \<open>
  Functors that record what they are called with, in call order, and functors that do
  nothing. A trace is the state the recording functor threads through the run.
\<close>

definition record_addr :: "addr \<Rightarrow> addr list \<Rightarrow> addr list" where
  "record_addr a tr = tr @ [a]"

definition record_pair :: "addr \<Rightarrow> addr \<Rightarrow> (addr \<times> addr) list \<Rightarrow> (addr \<times> addr) list" where
  "record_pair a b tr = tr @ [(a, b)]"

definition ignore_addr :: "addr \<Rightarrow> 's \<Rightarrow> 's" where
  "ignore_addr a s = s"

definition ignore_pair :: "addr \<Rightarrow> addr \<Rightarrow> 's \<Rightarrow> 's" where
  "ignore_pair a b s = s"

text \<open>The address of the cell at a position \<open>(y, x)\<close> of the index space.\<close>

definition cell :: "matrix_wrapper \<Rightarrow> nat \<times> nat \<Rightarrow> addr" where
  "cell m p = elem m (int (fst p)) (int (snd p))"

text \<open>
  The address that a traversal computes for the position \<open>(y, x)\<close> from the row pointer
  \<^verbatim>\<open>mat[y]\<close> of a \<^verbatim>\<open>size_t\<close> counter \<open>y\<close>, advanced by \<open>x\<close>. It is the address of the
  cell as long as \<open>y\<close> is below \<open>2 ^ 31\<close>.
\<close>

definition visited :: "matrix_wrapper \<Rightarrow> nat \<times> nat \<Rightarrow> addr" where
  "visited m p = row_ptr m (to_int (int (fst p))) + int (snd p)"

text \<open>
  The number of times \<^verbatim>\<open>filter\<close> calls the evaluate functor on \<^verbatim>\<open>output(y, x)\<close>
  (\<open>None\<close> when the run aborts).
\<close>

definition eval_count ::
  "bool \<Rightarrow> matrix_wrapper \<Rightarrow> matrix_wrapper \<Rightarrow> matrix_wrapper \<Rightarrow> int \<Rightarrow> int \<Rightarrow> nat option" where
  "eval_count ndebug input output kern y x =
     map_option (\<lambda>tr. count_list tr (elem output y x))
       (filter_2d ndebug input output kern ignore_pair record_addr [])"

text \<open>
  The order of \<^verbatim>\<open>for_each_pair\<close> as the specification lists it: the vertical edges of
  column 0, the horizontal edges of row 0, then row by row and column by column the
  vertical edge followed by the horizontal edge. Each pair names the upper or left
  position first.
\<close>

definition pair_positions :: "nat \<Rightarrow> nat \<Rightarrow> ((nat \<times> nat) \<times> (nat \<times> nat)) list" where
  "pair_positions R C =
     map (\<lambda>y. ((y - 1, 0), (y, 0))) [1..<R] @
     map (\<lambda>x. ((0, x - 1), (0, x))) [1..<C] @
     concat (map (\<lambda>y. concat (map (\<lambda>x. [((y - 1, x), (y, x)), ((y, x - 1), (y, x))]) [1..<C]))
       [1..<R])"

text \<open>The three parts of that order, one for each loop of \<^verbatim>\<open>for_each_pair\<close>.\<close>

definition column_edges :: "nat \<Rightarrow> ((nat \<times> nat) \<times> (nat \<times> nat)) list" where
  "column_edges R = map (\<lambda>y. ((y - 1, 0), (y, 0))) [1..<R]"

definition row_edges :: "nat \<Rightarrow> ((nat \<times> nat) \<times> (nat \<times> nat)) list" where
  "row_edges C = map (\<lambda>x. ((0, x - 1), (0, x))) [1..<C]"

definition inner_edges :: "nat \<Rightarrow> nat \<Rightarrow> ((nat \<times> nat) \<times> (nat \<times> nat)) list" where
  "inner_edges R C =
     concat (map (\<lambda>y. concat (map (\<lambda>x. [((y - 1, x), (y, x)), ((y, x - 1), (y, x))]) [1..<C]))
       [1..<R])"

text \<open>
  Two positions are 4-adjacent when they differ by one row or by one column, and not
  both.
\<close>

definition adjacent :: "nat \<times> nat \<Rightarrow> nat \<times> nat \<Rightarrow> bool" where
  "adjacent p q =
     ((snd p = snd q \<and> (fst q = fst p + 1 \<or> fst p = fst q + 1)) \<or>
      (fst p = fst q \<and> (snd q = snd p + 1 \<or> snd p = snd q + 1)))"

definition in_grid :: "nat \<Rightarrow> nat \<Rightarrow> nat \<times> nat \<Rightarrow> bool" where
  "in_grid R C p = (fst p < R \<and> snd p < C)"

text \<open>The second position lies directly below or directly right of the first.\<close>

definition below_or_right :: "nat \<times> nat \<Rightarrow> nat \<times> nat \<Rightarrow> bool" where
  "below_or_right p q =
     ((fst q = fst p + 1 \<and> snd q = snd p) \<or> (fst q = fst p \<and> snd q = snd p + 1))"

text \<open>The positions of an \<open>R \<times> C\<close> grid in row-major order.\<close>

definition row_major :: "nat \<Rightarrow> nat \<Rightarrow> (nat \<times> nat) list" where
  "row_major R C = List.product [0..<R] [0..<C]"


text \<open>
  A grid's storage is live in a heap when every cell of the grid lies below the
  allocation frontier.
\<close>

definition valid_in :: "matrix_wrapper \<Rightarrow> 'a heap \<Rightarrow> bool" where
  "valid_in g h = (\<forall>y<m_rows g. \<forall>x<m_cols g. cell g (y, x) < next_free h)"

text \<open>
  An address is in the extent of a grid when it is the address of one of its cells: for
  a grid whose rows do not overlap (\<open>m_cols \<le> m_step\<close>) the offset from the start,
  divided by the step, gives the row and the column. The functor \<open>note_outside m\<close> keeps
  the first pair it is called with whose first address is outside the extent of \<open>m\<close>.
\<close>

definition in_extent :: "matrix_wrapper \<Rightarrow> addr \<Rightarrow> bool" where
  "in_extent m a =
     (let d = a - m_start m
      in 0 \<le> d \<and> d div int (m_step m) < int (m_rows m) \<and> d mod int (m_step m) < int (m_cols m))"

definition note_outside ::
  "matrix_wrapper \<Rightarrow> addr \<Rightarrow> addr \<Rightarrow> (addr \<times> addr) option \<Rightarrow> (addr \<times> addr) option" where
  "note_outside m a k st =
     (case st of Some v \<Rightarrow> Some v | None \<Rightarrow> if in_extent m a then None else Some (a, k))"

text \<open>
  The window of input cells around the position \<open>(y, x)\<close>: the rows \<open>y - kr .. y + kr\<close>
  and the columns \<open>x - kc .. x + kc\<close> that the input has, where \<open>kr\<close> and \<open>kc\<close> are half
  the kernel's rows and columns.
\<close>

definition window_cells :: "matrix_wrapper \<Rightarrow> matrix_wrapper \<Rightarrow> int \<Rightarrow> int \<Rightarrow> (int \<times> int) list" where
  "window_cells input kern y x =
     List.product
       [max (y - int (m_rows kern div 2)) 0 ..
        min (y + int (m_rows kern div 2) + 1) (int (m_rows input)) - 1]
       [max (x - int (m_cols kern div 2)) 0 ..
        min (x + int (m_cols kern div 2) + 1) (int (m_cols input)) - 1]"

text \<open>
  What the filter is to do at one output position \<open>p\<close>: accumulate over the window, each
  input cell together with the kernel cell at the same offset from the kernel's centre,
  then evaluate on the output cell.
\<close>

definition filter_at ::
  "matrix_wrapper \<Rightarrow> matrix_wrapper \<Rightarrow> matrix_wrapper \<Rightarrow>
   (addr \<Rightarrow> addr \<Rightarrow> 's \<Rightarrow> 's) \<Rightarrow> (addr \<Rightarrow> 's \<Rightarrow> 's) \<Rightarrow> int \<times> int \<Rightarrow> 's \<Rightarrow> 's" where
  "filter_at input output kern accm eval p s =
     eval (elem output (fst p) (snd p))
       (fold (\<lambda>q. accm (elem input (fst q) (snd q))
                 (elem kern (fst q - fst p + int (m_rows kern div 2))
                    (snd q - snd p + int (m_cols kern div 2))))
          (window_cells input kern (fst p) (snd p)) s)"

text \<open>
  The output positions \<open>(y, x)\<close> in the order of the five loop nests of \<^verbatim>\<open>filter\<close>:
  top, bottom, left, right, centre. The left and right bands are \<open>kr\<close> columns wide.
\<close>

definition band_order :: "matrix_wrapper \<Rightarrow> matrix_wrapper \<Rightarrow> (int \<times> int) list" where
  "band_order input kern =
     (let rows = int (m_rows input); cols = int (m_cols input);
          kr = int (m_rows kern div 2); kc = int (m_cols kern div 2)
      in List.product [0 .. kr - 1] [0 .. cols - 1] @
         List.product [rows - kr .. rows - 1] [0 .. cols - 1] @
         List.product [kr .. rows - kr - 1] [0 .. kr - 1] @
         List.product [kr .. rows - kr - 1] [cols - kr .. cols - 1] @
         List.product [kr .. rows - kr - 1] [kc .. cols - kc - 1])"

text \<open>
  The four cells the Gaussian generator writes for the distances \<open>dy\<close> and \<open>dx\<close>, all
  taken around the index \<open>k\<close> in both directions.
\<close>

definition mirrored_cells :: "matrix_wrapper \<Rightarrow> int \<Rightarrow> int \<Rightarrow> int \<Rightarrow> addr set" where
  "mirrored_cells kern k dy dx =
     {elem kern (k - dy) (k - dx), elem kern (k - dy) (k + dx),
      elem kern (k + dy) (k + dx), elem kern (k + dy) (k - dx)}"

section \<open>Lemmas on folds and index lists\<close>

lemma fold_product:
  "fold f (List.product xs ys) s = fold (\<lambda>x. fold (\<lambda>y. f (x, y)) ys) xs s"
  by (induction xs arbitrary: s) (simp_all add: fold_map comp_def)

lemma upt_shift: "x < n \<Longrightarrow> [0..<n - x] = 0 # map Suc [0..<n - (x + 1)]"
proof -
  assume "x < n"
  then obtain k where k: "n - x = Suc k" and k': "n - (x + 1) = k"
    by (metis Suc_diff_Suc Suc_eq_plus1)
  show ?thesis unfolding k k' by (simp add: upt_conv_Cons map_Suc_upt del: upt_Suc)
qed

lemma fold_record: "fold (\<lambda>p tr. tr @ [g p]) ps tr = tr @ map g ps"
  by (induction ps arbitrary: tr) simp_all

section \<open>Row indices below \<open>2 ^ 31\<close> pass the conversion to int unchanged\<close>

lemma to_int_small: "0 \<le> v \<Longrightarrow> v < 2 ^ 31 \<Longrightarrow> to_int v = v"
  by (simp add: to_int_def)

lemma to_int_id: "- (2 ^ 31) \<le> v \<Longrightarrow> v < 2 ^ 31 \<Longrightarrow> to_int v = v"
  by (simp add: to_int_def)

lemma to_int_nat: "y < 2 ^ 31 \<Longrightarrow> to_int (int y) = int y"
proof -
  assume "y < 2 ^ 31"
  then have "int y < int (2 ^ 31)"
    by (simp only: of_nat_less_iff)
  then show ?thesis
    by (intro to_int_small) simp_all
qed

lemma to_int_range: "- (2 ^ 31) \<le> to_int v \<and> to_int v < 2 ^ 31"
proof -
  have "0 \<le> (v + 2 ^ 31) mod 2 ^ 32" "(v + 2 ^ 31) mod 2 ^ 32 < 2 ^ 32"
    by simp_all
  then show ?thesis
    unfolding to_int_def by simp
qed

lemma visited_cell: "fst p < 2 ^ 31 \<Longrightarrow> visited m p = cell m p"
  by (simp add: visited_def cell_def elem_def to_int_nat)

lemma visited_first_row: "visited m (0, x) = cell m (0, x)"
  by (simp add: visited_cell)

lemma in_row_major: "p \<in> set (row_major R C) \<longleftrightarrow> fst p < R \<and> snd p < C"
  by (cases p) (simp add: row_major_def)

section \<open>for_each is a fold over the positions in row-major order\<close>

lemma for_each_cols_fold:
  "for_each_cols x cols p func s = fold func (map (\<lambda>i. p + int i) [0..<cols - x]) s"
proof (induction x cols p func s rule: for_each_cols.induct)
  case (1 x cols p func s)
  show ?case
  proof (cases "x < cols")
    case True
    have "for_each_cols x cols p func s = for_each_cols (x + 1) cols (p + 1) func (func p s)"
      using True by (simp add: for_each_cols.simps [of x])
    also have "\<dots> = fold func (map (\<lambda>i. p + 1 + int i) [0..<cols - (x + 1)]) (func p s)"
      using "1.IH" [OF True] .
    also have "\<dots> = fold func (map (\<lambda>i. p + int i) [0..<cols - x]) s"
      by (simp add: upt_shift [OF True] comp_def add.assoc del: upt_Suc)
    finally show ?thesis .
  next
    case False
    then show ?thesis by (simp add: for_each_cols.simps [of x])
  qed
qed

lemma for_each_rows_fold:
  "for_each_rows y mat func s =
     fold (\<lambda>y'. fold (\<lambda>x'. func (visited mat (y', x'))) [0..<m_cols mat]) [y..<m_rows mat] s"
proof (induction y mat func s rule: for_each_rows.induct)
  case (1 y mat func s)
  show ?case
  proof (cases "y < m_rows mat")
    case True
    have row: "for_each_cols 0 (m_cols mat) (row_ptr mat (to_int (int y))) func s =
        fold (\<lambda>x'. func (visited mat (y, x'))) [0..<m_cols mat] s"
      by (simp add: for_each_cols_fold fold_map comp_def visited_def)
    show ?thesis
      using True "1.IH" [OF True] by (simp add: for_each_rows.simps [of y] row upt_conv_Cons)
  next
    case False
    then show ?thesis by (simp add: for_each_rows.simps [of y])
  qed
qed

lemma for_each_visited:
  "for_each mat func s = fold (\<lambda>p. func (visited mat p)) (row_major (m_rows mat) (m_cols mat)) s"
  by (simp add: for_each_def for_each_rows_fold fold_product row_major_def)

lemma for_each_cols2_fold:
  "for_each_cols2 x cols p1 p2 func s =
     fold (\<lambda>i. func (p1 + int i) (p2 + int i)) [0..<cols - x] s"
proof (induction x cols p1 p2 func s rule: for_each_cols2.induct)
  case (1 x cols p1 p2 func s)
  show ?case
  proof (cases "x < cols")
    case True
    have "for_each_cols2 x cols p1 p2 func s =
        for_each_cols2 (x + 1) cols (p1 + 1) (p2 + 1) func (func p1 p2 s)"
      using True by (simp add: for_each_cols2.simps [of x])
    also have "\<dots> = fold (\<lambda>i. func (p1 + 1 + int i) (p2 + 1 + int i)) [0..<cols - (x + 1)]
        (func p1 p2 s)"
      using "1.IH" [OF True] .
    also have "\<dots> = fold (\<lambda>i. func (p1 + int i) (p2 + int i)) [0..<cols - x] s"
      by (simp add: upt_shift [OF True] fold_map comp_def add.assoc del: upt_Suc)
    finally show ?thesis .
  next
    case False
    then show ?thesis by (simp add: for_each_cols2.simps [of x])
  qed
qed

lemma for_each_rows2_fold:
  "for_each_rows2 y mat1 mat2 func s =
     fold (\<lambda>y'. fold (\<lambda>x'. func (visited mat1 (y', x')) (visited mat2 (y', x'))) [0..<m_cols mat1])
       [y..<m_rows mat1] s"
proof (induction y mat1 mat2 func s rule: for_each_rows2.induct)
  case (1 y mat1 mat2 func s)
  show ?case
  proof (cases "y < m_rows mat1")
    case True
    have row: "for_each_cols2 0 (m_cols mat1) (row_ptr mat1 (to_int (int y))) (row_ptr mat2 (to_int (int y))) func s =
        fold (\<lambda>x'. func (visited mat1 (y, x')) (visited mat2 (y, x'))) [0..<m_cols mat1] s"
      by (simp add: for_each_cols2_fold visited_def)
    show ?thesis
      using True "1.IH" [OF True] by (simp add: for_each_rows2.simps [of y] row upt_conv_Cons)
  next
    case False
    then show ?thesis by (simp add: for_each_rows2.simps [of y])
  qed
qed

lemma for_each_rows2_visited:
  "for_each_rows2 0 mat1 mat2 func s =
     fold (\<lambda>p. func (visited mat1 p) (visited mat2 p)) (row_major (m_rows mat1) (m_cols mat1)) s"
  by (simp add: for_each_rows2_fold fold_product row_major_def)

lemma for_each_cols3_fold:
  "for_each_cols3 x cols p1 p2 p3 func s =
     fold (\<lambda>i. func (p1 + int i) (p2 + int i) (p3 + int i)) [0..<cols - x] s"
proof (induction x cols p1 p2 p3 func s rule: for_each_cols3.induct)
  case (1 x cols p1 p2 p3 func s)
  show ?case
  proof (cases "x < cols")
    case True
    have "for_each_cols3 x cols p1 p2 p3 func s =
        for_each_cols3 (x + 1) cols (p1 + 1) (p2 + 1) (p3 + 1) func (func p1 p2 p3 s)"
      using True by (simp add: for_each_cols3.simps [of x])
    also have "\<dots> =
        fold (\<lambda>i. func (p1 + 1 + int i) (p2 + 1 + int i) (p3 + 1 + int i)) [0..<cols - (x + 1)]
          (func p1 p2 p3 s)"
      using "1.IH" [OF True] .
    also have "\<dots> = fold (\<lambda>i. func (p1 + int i) (p2 + int i) (p3 + int i)) [0..<cols - x] s"
      by (simp add: upt_shift [OF True] fold_map comp_def add.assoc del: upt_Suc)
    finally show ?thesis .
  next
    case False
    then show ?thesis by (simp add: for_each_cols3.simps [of x])
  qed
qed

lemma for_each_rows3_fold:
  "for_each_rows3 y mat1 mat2 mat3 func s =
     fold (\<lambda>y'. fold (\<lambda>x'. func (visited mat1 (y', x')) (visited mat2 (y', x')) (visited mat3 (y', x')))
       [0..<m_cols mat1]) [y..<m_rows mat1] s"
proof (induction y mat1 mat2 mat3 func s rule: for_each_rows3.induct)
  case (1 y mat1 mat2 mat3 func s)
  show ?case
  proof (cases "y < m_rows mat1")
    case True
    have row: "for_each_cols3 0 (m_cols mat1) (row_ptr mat1 (to_int (int y))) (row_ptr mat2 (to_int (int y)))
          (row_ptr mat3 (to_int (int y))) func s =
        fold (\<lambda>x'. func (visited mat1 (y, x')) (visited mat2 (y, x')) (visited mat3 (y, x')))
          [0..<m_cols mat1] s"
      by (simp add: for_each_cols3_fold visited_def)
    show ?thesis
      using True "1.IH" [OF True] by (simp add: for_each_rows3.simps [of y] row upt_conv_Cons)
  next
    case False
    then show ?thesis by (simp add: for_each_rows3.simps [of y])
  qed
qed

lemma for_each_rows3_visited:
  "for_each_rows3 0 mat1 mat2 mat3 func s =
     fold (\<lambda>p. func (visited mat1 p) (visited mat2 p) (visited mat3 p))
       (row_major (m_rows mat1) (m_cols mat1)) s"
  by (simp add: for_each_rows3_fold fold_product row_major_def)

lemma for_each_cols4_fold:
  "for_each_cols4 x cols p1 p2 p3 p4 func s =
     fold (\<lambda>i. func (p1 + int i) (p2 + int i) (p3 + int i) (p4 + int i)) [0..<cols - x] s"
proof (induction x cols p1 p2 p3 p4 func s rule: for_each_cols4.induct)
  case (1 x cols p1 p2 p3 p4 func s)
  show ?case
  proof (cases "x < cols")
    case True
    have "for_each_cols4 x cols p1 p2 p3 p4 func s =
        for_each_cols4 (x + 1) cols (p1 + 1) (p2 + 1) (p3 + 1) (p4 + 1) func
          (func p1 p2 p3 p4 s)"
      using True by (simp add: for_each_cols4.simps [of x])
    also have "\<dots> =
        fold (\<lambda>i. func (p1 + 1 + int i) (p2 + 1 + int i) (p3 + 1 + int i) (p4 + 1 + int i))
          [0..<cols - (x + 1)] (func p1 p2 p3 p4 s)"
      using "1.IH" [OF True] .
    also have "\<dots> =
        fold (\<lambda>i. func (p1 + int i) (p2 + int i) (p3 + int i) (p4 + int i)) [0..<cols - x] s"
      by (simp add: upt_shift [OF True] fold_map comp_def add.assoc del: upt_Suc)
    finally show ?thesis .
  next
    case False
    then show ?thesis by (simp add: for_each_cols4.simps [of x])
  qed
qed

lemma for_each_rows4_fold:
  "for_each_rows4 y mat1 mat2 mat3 mat4 func s =
     fold (\<lambda>y'. fold (\<lambda>x'. func (visited mat1 (y', x')) (visited mat2 (y', x')) (visited mat3 (y', x'))
       (visited mat4 (y', x'))) [0..<m_cols mat1]) [y..<m_rows mat1] s"
proof (induction y mat1 mat2 mat3 mat4 func s rule: for_each_rows4.induct)
  case (1 y mat1 mat2 mat3 mat4 func s)
  show ?case
  proof (cases "y < m_rows mat1")
    case True
    have row: "for_each_cols4 0 (m_cols mat1) (row_ptr mat1 (to_int (int y))) (row_ptr mat2 (to_int (int y)))
          (row_ptr mat3 (to_int (int y))) (row_ptr mat4 (to_int (int y))) func s =
        fold (\<lambda>x'. func (visited mat1 (y, x')) (visited mat2 (y, x')) (visited mat3 (y, x'))
          (visited mat4 (y, x'))) [0..<m_cols mat1] s"
      by (simp add: for_each_cols4_fold visited_def)
    show ?thesis
      using True "1.IH" [OF True] by (simp add: for_each_rows4.simps [of y] row upt_conv_Cons)
  next
    case False
    then show ?thesis by (simp add: for_each_rows4.simps [of y])
  qed
qed

lemma for_each_rows4_visited:
  "for_each_rows4 0 mat1 mat2 mat3 mat4 func s =
     fold (\<lambda>p. func (visited mat1 p) (visited mat2 p) (visited mat3 p) (visited mat4 p))
       (row_major (m_rows mat1) (m_cols mat1)) s"
  by (simp add: for_each_rows4_fold fold_product row_major_def)

lemma fold_row_major_cong:
  assumes "R \<le> 2 ^ 31" and "\<And>p. fst p < 2 ^ 31 \<Longrightarrow> f p = g p"
  shows "fold f (row_major R C) s = fold g (row_major R C) s"
proof (rule fold_cong)
  fix p
  assume "p \<in> set (row_major R C)"
  then have "fst p < 2 ^ 31"
    using assms(1) by (simp add: in_row_major)
  then show "f p = g p"
    by (rule assms(2))
qed simp_all

lemma for_each_fold:
  assumes "m_rows mat \<le> 2 ^ 31"
  shows "for_each mat func s =
    fold (\<lambda>p. func (cell mat p)) (row_major (m_rows mat) (m_cols mat)) s"
  unfolding for_each_visited
  by (rule fold_row_major_cong [OF assms]) (simp add: visited_cell)

lemma for_each_rows2_product:
  assumes "m_rows mat1 \<le> 2 ^ 31"
  shows "for_each_rows2 0 mat1 mat2 func s =
     fold (\<lambda>p. func (cell mat1 p) (cell mat2 p)) (row_major (m_rows mat1) (m_cols mat1)) s"
  unfolding for_each_rows2_visited
  by (rule fold_row_major_cong [OF assms]) (simp add: visited_cell)

lemma for_each_rows3_product:
  assumes "m_rows mat1 \<le> 2 ^ 31"
  shows "for_each_rows3 0 mat1 mat2 mat3 func s =
     fold (\<lambda>p. func (cell mat1 p) (cell mat2 p) (cell mat3 p))
       (row_major (m_rows mat1) (m_cols mat1)) s"
  unfolding for_each_rows3_visited
  by (rule fold_row_major_cong [OF assms]) (simp add: visited_cell)

lemma for_each_rows4_product:
  assumes "m_rows mat1 \<le> 2 ^ 31"
  shows "for_each_rows4 0 mat1 mat2 mat3 mat4 func s =
     fold (\<lambda>p. func (cell mat1 p) (cell mat2 p) (cell mat3 p) (cell mat4 p))
       (row_major (m_rows mat1) (m_cols mat1)) s"
  unfolding for_each_rows4_visited
  by (rule fold_row_major_cong [OF assms]) (simp add: visited_cell)

lemma length_row_major: "length (row_major R C) = R * C"
  by (simp add: row_major_def)

lemma distinct_row_major: "distinct (row_major R C)"
  by (simp add: row_major_def distinct_product)

lemma row_major_nth: "y < R \<Longrightarrow> x < C \<Longrightarrow> row_major R C ! (y * C + x) = (y, x)"
proof -
  assume y: "y < R" and x: "x < C"
  have "y * C + x < R * C"
  proof -
    have "y * C + x < y * C + C" using x by simp
    also have "\<dots> = Suc y * C" by simp
    also have "\<dots> \<le> R * C" using y by (intro mult_le_mono1) simp
    finally show ?thesis .
  qed
  then have "row_major R C ! (y * C + x)
      = ([0..<R] ! ((y * C + x) div C), [0..<C] ! ((y * C + x) mod C))"
    by (simp add: row_major_def product_nth)
  then show ?thesis using x y by simp
qed

lemma fold_record_addr: "fold (\<lambda>p. record_addr (g p)) ps tr = tr @ map g ps"
  by (induction ps arbitrary: tr) (simp_all add: record_addr_def)

lemma fold_record_pair: "fold (\<lambda>p. record_pair (g p) (g' p)) ps tr = tr @ map (\<lambda>p. (g p, g' p)) ps"
  by (induction ps arbitrary: tr) (simp_all add: record_pair_def)

section \<open>Elementwise iteration visits every position once, in row-major order\<close>

text \<open>
  C5, for grids whose row indices fit the \<^verbatim>\<open>int\<close> parameter of \<^verbatim>\<open>operator[]\<close>. For
  grids of \<open>R \<le> 2 ^ 31\<close> rows and \<open>C\<close> columns, \<^verbatim>\<open>for_each\<close> over one, two, three or four
  grids of the same shape calls the functor once per position, in row-major order
  (\<open>y\<close> outer, \<open>x\<close> inner), with the address of the element of each grid at that position,
  in argument order: the run is the fold of the functor over \<open>row_major R C\<close>. That list
  has \<open>R * C\<close> entries, no position twice, and position \<open>(y, x)\<close> at index \<open>y * C + x\<close>.
\<close>

theorem for_each_row_major:
  assumes "same_shape mat1 mat2" and "same_shape mat1 mat3" and "same_shape mat1 mat4"
    and "m_rows mat1 \<le> 2 ^ 31"
  shows "for_each mat1 f1 s =
           fold (\<lambda>p. f1 (cell mat1 p)) (row_major (m_rows mat1) (m_cols mat1)) s
       \<and> for_each2 ndebug mat1 mat2 f2 s =
           Some (fold (\<lambda>p. f2 (cell mat1 p) (cell mat2 p))
             (row_major (m_rows mat1) (m_cols mat1)) s)
       \<and> for_each3 ndebug mat1 mat2 mat3 f3 s =
           Some (fold (\<lambda>p. f3 (cell mat1 p) (cell mat2 p) (cell mat3 p))
             (row_major (m_rows mat1) (m_cols mat1)) s)
       \<and> for_each4 ndebug mat1 mat2 mat3 mat4 f4 s =
           Some (fold (\<lambda>p. f4 (cell mat1 p) (cell mat2 p) (cell mat3 p) (cell mat4 p))
             (row_major (m_rows mat1) (m_cols mat1)) s)
       \<and> for_each mat1 record_addr [] = map (cell mat1) (row_major (m_rows mat1) (m_cols mat1))
       \<and> length (row_major (m_rows mat1) (m_cols mat1)) = m_rows mat1 * m_cols mat1
       \<and> distinct (row_major (m_rows mat1) (m_cols mat1))
       \<and> (\<forall>y<m_rows mat1. \<forall>x<m_cols mat1.
            row_major (m_rows mat1) (m_cols mat1) ! (y * m_cols mat1 + x) = (y, x))"
proof -
  have a2: "assert_that ndebug (m_rows mat1 = m_rows mat2 \<and> m_cols mat1 = m_cols mat2) = Some ()"
    using assms(1) by (simp add: assert_that_def same_shape_def)
  have a3: "assert_that ndebug (m_rows mat1 = m_rows mat3 \<and> m_cols mat1 = m_cols mat3) = Some ()"
    using assms(2) by (simp add: assert_that_def same_shape_def)
  have a4: "assert_that ndebug (m_rows mat1 = m_rows mat4 \<and> m_cols mat1 = m_cols mat4) = Some ()"
    using assms(3) by (simp add: assert_that_def same_shape_def)
  have one: "for_each mat1 f1 s =
      fold (\<lambda>p. f1 (cell mat1 p)) (row_major (m_rows mat1) (m_cols mat1)) s"
    by (rule for_each_fold [OF assms(4)])
  have two: "for_each2 ndebug mat1 mat2 f2 s =
      Some (fold (\<lambda>p. f2 (cell mat1 p) (cell mat2 p)) (row_major (m_rows mat1) (m_cols mat1)) s)"
    by (simp add: for_each2_def a2 for_each_rows2_product [OF assms(4)])
  have three: "for_each3 ndebug mat1 mat2 mat3 f3 s =
      Some (fold (\<lambda>p. f3 (cell mat1 p) (cell mat2 p) (cell mat3 p))
        (row_major (m_rows mat1) (m_cols mat1)) s)"
    by (simp add: for_each3_def a2 a3 for_each_rows3_product [OF assms(4)])
  have four: "for_each4 ndebug mat1 mat2 mat3 mat4 f4 s =
      Some (fold (\<lambda>p. f4 (cell mat1 p) (cell mat2 p) (cell mat3 p) (cell mat4 p))
        (row_major (m_rows mat1) (m_cols mat1)) s)"
    by (simp add: for_each4_def a2 a3 a4 for_each_rows4_product [OF assms(4)])
  have trace: "for_each mat1 record_addr [] =
      map (cell mat1) (row_major (m_rows mat1) (m_cols mat1))"
    by (simp add: for_each_fold [OF assms(4)] fold_record_addr)
  from one two three four trace show ?thesis
    by (simp add: length_row_major distinct_row_major row_major_nth)
qed

theorem for_each_row_major_witness:
  "same_shape \<lparr>m_start = 0, m_rows = 2, m_cols = 3, m_step = 3\<rparr>
              \<lparr>m_start = 100, m_rows = 2, m_cols = 3, m_step = 5\<rparr>
   \<and> m_rows \<lparr>m_start = 0, m_rows = 2, m_cols = 3, m_step = 3\<rparr> \<le> 2 ^ 31
   \<and> for_each2 False \<lparr>m_start = 0, m_rows = 2, m_cols = 3, m_step = 3\<rparr>
        \<lparr>m_start = 100, m_rows = 2, m_cols = 3, m_step = 5\<rparr> record_pair []
      = Some [(0, 100), (1, 101), (2, 102), (3, 105), (4, 106), (5, 107)]
   \<and> for_each \<lparr>m_start = 0, m_rows = 2, m_cols = 3, m_step = 3\<rparr> record_addr []
      = [0, 1, 2, 3, 4, 5]
   \<and> row_major 2 3 ! (1 * 3 + 2) = (1, 2)"
proof -
  let ?A = "\<lparr>m_start = 0, m_rows = 2, m_cols = 3, m_step = 3\<rparr>"
  let ?B = "\<lparr>m_start = 100, m_rows = 2, m_cols = 3, m_step = 5\<rparr>"
  have ab: "same_shape ?A ?B" and aa: "same_shape ?A ?A"
    by (simp_all add: same_shape_def)
  have few: "m_rows ?A \<le> 2 ^ 31"
    by simp
  have rm: "row_major 2 3 = [(0, 0), (0, 1), (0, 2), (1, 0), (1, 1), (1, 2)]"
    by code_simp
  note th2 = for_each_row_major [OF ab aa aa few, where ?f1.0 = ignore_addr and ?f2.0 = record_pair
      and ?f3.0 = "\<lambda>a b. ignore_addr" and ?f4.0 = "\<lambda>a b c. ignore_addr"
      and s = "[]" and ndebug = False]
  note th1 = for_each_row_major [OF ab aa aa few, where ?f1.0 = record_addr
      and ?f2.0 = ignore_pair and ?f3.0 = "\<lambda>a. ignore_pair" and ?f4.0 = "\<lambda>a b. ignore_pair"
      and s = "[]" and ndebug = False]
  have two: "for_each2 False ?A ?B record_pair []
      = Some (fold (\<lambda>p. record_pair (cell ?A p) (cell ?B p)) (row_major 2 3) [])"
    using th2 by simp
  have one: "for_each ?A record_addr [] = map (cell ?A) (row_major 2 3)"
    using th1 [simplified] by blast
  have all: "\<forall>y<2. \<forall>x<3. row_major 2 3 ! (y * 3 + x) = (y, x)"
    using th1 by simp
  have idx: "row_major 2 3 ! (1 * 3 + 2) = (1, 2)"
    using all [rule_format, of 1 2] by simp
  show ?thesis
    unfolding one two using ab idx
    by (simp add: rm cell_def elem_def row_ptr_def record_pair_def)
qed

lemma product_singleton: "List.product xs [b] = map (\<lambda>a. (a, b)) xs"
  by (induction xs) simp_all

lemma for_each_column_trace:
  assumes "m_cols m = 1"
  shows "for_each m record_addr [] = map (\<lambda>y. row_ptr m (to_int (int y))) [0..<m_rows m]"
proof -
  have "row_major (m_rows m) 1 = map (\<lambda>y. (y, 0)) [0..<m_rows m]"
    unfolding row_major_def by (simp add: product_singleton)
  then show ?thesis
    by (simp add: for_each_visited fold_record_addr assms visited_def comp_def)
qed

lemma last_map_upt: "0 < R \<Longrightarrow> last (map f [0..<R]) = f (R - 1)"
  by (simp add: last_map)

text \<open>
  C5, as the claim states it, fails on a grid of more rows than an \<^verbatim>\<open>int\<close> counts: on
  \<open>2 ^ 31 + 1\<close> rows of one element the row pointer of the last row is taken at the index
  \<open>- 2 ^ 31\<close>, so the last call receives the address \<open>2 ^ 31\<close> elements before the grid
  and the element of that row, at address \<open>2 ^ 31\<close>, is never visited.
\<close>

theorem for_each_row_major_counterexample:
  "cell \<lparr>m_start = 0, m_rows = 2147483649, m_cols = 1, m_step = 1\<rparr> (2147483648, 0) = 2147483648
   \<and> 2147483648 \<notin>
       set (for_each \<lparr>m_start = 0, m_rows = 2147483649, m_cols = 1, m_step = 1\<rparr> record_addr [])
   \<and> last (for_each \<lparr>m_start = 0, m_rows = 2147483649, m_cols = 1, m_step = 1\<rparr> record_addr [])
       = - 2147483648"
proof -
  let ?G = "\<lparr>m_start = 0, m_rows = 2147483649, m_cols = Suc 0, m_step = Suc 0\<rparr>"
  define R :: nat where "R = 2147483649"
  have trace: "for_each ?G record_addr [] = map (\<lambda>y. to_int (int y)) [0..<R]"
    using for_each_column_trace [of ?G] by (simp add: row_ptr_def R_def)
  have below: "to_int (int y) \<noteq> 2147483648" for y
    using to_int_range [of "int y"] by simp
  have "last (map (\<lambda>y. to_int (int y)) [0..<R]) = to_int (int (R - 1))"
    by (rule last_map_upt) (simp add: R_def)
  also have "\<dots> = - 2147483648"
    by (simp add: R_def to_int_def)
  finally have final: "last (map (\<lambda>y. to_int (int y)) [0..<R]) = - 2147483648" .
  have "2147483648 \<notin> set (map (\<lambda>y. to_int (int y)) [0..<R])"
    using below by auto
  then show ?thesis
    using final by (simp add: trace cell_def elem_def row_ptr_def)
qed

section \<open>set does not initialise the columns beyond the row count\<close>

text \<open>
  C10. \<^verbatim>\<open>set\<close> bounds its column loop by \<^verbatim>\<open>rows()\<close>. On a 1 x 2 grid over zeroed memory
  \<^verbatim>\<open>set(7)\<close> leaves element \<open>(0, 1)\<close> at 0; on a 2 x 1 grid with step 3 it writes the
  addresses of \<open>(0, 1)\<close> and \<open>(1, 1)\<close>, which lie outside the grid.
\<close>

theorem set_all_wrong_column_bound:
  "map (set_all \<lparr>m_start = 0, m_rows = 1, m_cols = 2, m_step = 2\<rparr> (7 :: int) (\<lambda>a. 0))
     [elem \<lparr>m_start = 0, m_rows = 1, m_cols = 2, m_step = 2\<rparr> 0 0,
      elem \<lparr>m_start = 0, m_rows = 1, m_cols = 2, m_step = 2\<rparr> 0 1] = [7, 0]
   \<and> map (set_all \<lparr>m_start = 0, m_rows = 2, m_cols = 1, m_step = 3\<rparr> (7 :: int) (\<lambda>a. 0))
     [0, 1, 2, 3, 4, 5] = [7, 7, 0, 7, 7, 0]"
  by code_simp

section \<open>filter: the left and right bands are as wide as the kernel is high\<close>

text \<open>
  C1. With a 3 x 1 kernel on an 8 x 4 image the left band and the central part both
  visit column 0, so \<^verbatim>\<open>output(1, 0)\<close> is evaluated twice; with a 1 x 3 kernel on a
  4 x 8 image the left and right bands are empty and the central part starts at column 1,
  so \<^verbatim>\<open>output(0, 0)\<close> is never evaluated. All assertions of \<^verbatim>\<open>filter\<close> hold on both inputs.
\<close>

theorem filter_2d_bands_overlap_or_miss:
  "eval_count False \<lparr>m_start = 0, m_rows = 8, m_cols = 4, m_step = 4\<rparr>
     \<lparr>m_start = 100, m_rows = 8, m_cols = 4, m_step = 4\<rparr>
     \<lparr>m_start = 200, m_rows = 3, m_cols = 1, m_step = 1\<rparr> 1 0 = Some 2
   \<and> eval_count False \<lparr>m_start = 0, m_rows = 4, m_cols = 8, m_step = 8\<rparr>
     \<lparr>m_start = 100, m_rows = 4, m_cols = 8, m_step = 8\<rparr>
     \<lparr>m_start = 200, m_rows = 1, m_cols = 3, m_step = 3\<rparr> 0 0 = Some 0"
  by code_simp

section \<open>gaussian_kernel: the centre column is taken from the row count\<close>

text \<open>
  C2. With \<open>weight = Some\<close> a cell holds \<open>Some d\<close> when the weight of squared distance
  \<open>d\<close> was written to it, and \<open>None\<close> when nothing was. For \<open>rows = 1\<close>, \<open>cols = 3\<close> the
  centre is the cell \<open>(0, 1)\<close>: the generator writes distance 0 to cell \<open>(0, 0)\<close> and
  distance 1 to cell \<open>(0, 1)\<close>, never writes cell \<open>(0, 2)\<close>, and writes distance 1 to the
  address before the buffer.
\<close>

theorem gaussian_kernel_off_centre:
  "map_option (\<lambda>(k, h). (k, map (contents h) [elem k 0 0, elem k 0 1, elem k 0 2, elem k 0 (- 1)]))
     (gaussian_kernel 1 3 Some \<lparr>contents = (\<lambda>a. None), next_free = 0\<rparr>)
   = Some (\<lparr>m_start = 0, m_rows = 1, m_cols = 3, m_step = 3\<rparr>, [Some 0, Some 1, None, Some 1])"
  by code_simp

section \<open>crop: the assertion rejects the reversal of a crop\<close>

text \<open>
  C6. On a 3 x 3 view, \<^verbatim>\<open>crop(1, 1, 1, 1)\<close> followed by \<^verbatim>\<open>crop(-1, -1, 3, 3)\<close>: with
  assertions enabled the second call fails its assertion (\<open>-1 + 3 \<le> 1\<close> is false); with
  \<^verbatim>\<open>NDEBUG\<close> it returns the original view.
\<close>

theorem crop_reversal_fails_assertion:
  "crop False \<lparr>m_start = 0, m_rows = 3, m_cols = 3, m_step = 3\<rparr> 1 1 1 1
     = Some \<lparr>m_start = 4, m_rows = 1, m_cols = 1, m_step = 3\<rparr>
   \<and> crop False \<lparr>m_start = 4, m_rows = 1, m_cols = 1, m_step = 3\<rparr> (- 1) (- 1) 3 3 = None
   \<and> crop True \<lparr>m_start = 4, m_rows = 1, m_cols = 1, m_step = 3\<rparr> (- 1) (- 1) 3 3
     = Some \<lparr>m_start = 0, m_rows = 3, m_cols = 3, m_step = 3\<rparr>"
  by code_simp

section \<open>for_each_pair is a fold over the neighbouring positions\<close>

lemma fold_concat_map: "fold f (concat (map g xs)) s = fold (\<lambda>x. fold f (g x)) xs s"
  by (induction xs arbitrary: s) simp_all

lemma upt_from_1: "[Suc 0..<n] = map Suc [0..<n - Suc 0]"
  by (cases n) (simp_all add: map_Suc_upt del: upt_Suc)

lemma pair_first_column_fold:
  "pair_first_column y mat up down func s =
     fold (\<lambda>i. func (up + int (m_step mat) * int i) (down + int (m_step mat) * int i))
       [0..<m_rows mat - y] s"
proof (induction y mat up down func s rule: pair_first_column.induct)
  case (1 y mat up down func s)
  show ?case
  proof (cases "y < m_rows mat")
    case True
    have "pair_first_column y mat up down func s =
        pair_first_column (y + 1) mat (up + int (m_step mat)) (down + int (m_step mat)) func
          (func up down s)"
      using True by (simp add: pair_first_column.simps [of y])
    also have "\<dots> =
        fold (\<lambda>i. func (up + int (m_step mat) + int (m_step mat) * int i)
                     (down + int (m_step mat) + int (m_step mat) * int i))
          [0..<m_rows mat - (y + 1)] (func up down s)"
      using "1.IH" [OF True] .
    also have "\<dots> =
        fold (\<lambda>i. func (up + int (m_step mat) * int i) (down + int (m_step mat) * int i))
          [0..<m_rows mat - y] s"
      by (simp add: upt_shift [OF True] fold_map comp_def algebra_simps del: upt_Suc)
    finally show ?thesis .
  next
    case False
    then show ?thesis by (simp add: pair_first_column.simps [of y])
  qed
qed

lemma pair_first_row_fold:
  "pair_first_row x mat left right func s =
     fold (\<lambda>i. func (left + int i) (right + int i)) [0..<m_cols mat - x] s"
proof (induction x mat left right func s rule: pair_first_row.induct)
  case (1 x mat left right func s)
  show ?case
  proof (cases "x < m_cols mat")
    case True
    have "pair_first_row x mat left right func s =
        pair_first_row (x + 1) mat (left + 1) (right + 1) func (func left right s)"
      using True by (simp add: pair_first_row.simps [of x])
    also have "\<dots> = fold (\<lambda>i. func (left + 1 + int i) (right + 1 + int i))
        [0..<m_cols mat - (x + 1)] (func left right s)"
      using "1.IH" [OF True] .
    also have "\<dots> = fold (\<lambda>i. func (left + int i) (right + int i)) [0..<m_cols mat - x] s"
      by (simp add: upt_shift [OF True] fold_map comp_def add.assoc del: upt_Suc)
    finally show ?thesis .
  next
    case False
    then show ?thesis by (simp add: pair_first_row.simps [of x])
  qed
qed

lemma pair_rest_cols_fold:
  "pair_rest_cols x mat up left center func s =
     fold (\<lambda>i s. func (left + int i) (center + int i) (func (up + int i) (center + int i) s))
       [0..<m_cols mat - x] s"
proof (induction x mat up left center func s rule: pair_rest_cols.induct)
  case (1 x mat up left center func s)
  show ?case
  proof (cases "x < m_cols mat")
    case True
    have "pair_rest_cols x mat up left center func s =
        pair_rest_cols (x + 1) mat (up + 1) (left + 1) (center + 1) func
          (func left center (func up center s))"
      using True by (simp add: pair_rest_cols.simps [of x])
    also have "\<dots> =
        fold (\<lambda>i s. func (left + 1 + int i) (center + 1 + int i)
                       (func (up + 1 + int i) (center + 1 + int i) s))
          [0..<m_cols mat - (x + 1)] (func left center (func up center s))"
      using "1.IH" [OF True] .
    also have "\<dots> =
        fold (\<lambda>i s. func (left + int i) (center + int i) (func (up + int i) (center + int i) s))
          [0..<m_cols mat - x] s"
      by (simp add: upt_shift [OF True] fold_map comp_def add.assoc del: upt_Suc)
    finally show ?thesis .
  next
    case False
    then show ?thesis by (simp add: pair_rest_cols.simps [of x])
  qed
qed

lemma pair_rest_row_positions:
  assumes "1 \<le> y"
  shows "pair_rest_cols 1 mat (row_ptr mat (to_int (int y - 1)) + 1)
           (row_ptr mat (to_int (int y))) (row_ptr mat (to_int (int y)) + 1) func s =
         fold (\<lambda>(p, q). func (visited mat p) (visited mat q))
           (concat (map (\<lambda>x. [((y - 1, x), (y, x)), ((y, x - 1), (y, x))]) [1..<m_cols mat])) s"
proof -
  have y: "int (y - Suc 0) = int y - 1"
    using assms by simp
  show ?thesis
    by (simp add: pair_rest_cols_fold fold_concat_map upt_from_1 [of "m_cols mat"] fold_map
        comp_def visited_def y ac_simps)
qed

lemma pair_rest_rows_fold:
  assumes "1 \<le> y"
  shows "pair_rest_rows y mat func s =
     fold (\<lambda>(p, q). func (visited mat p) (visited mat q))
       (concat (map (\<lambda>y. concat (map (\<lambda>x. [((y - 1, x), (y, x)), ((y, x - 1), (y, x))])
          [1..<m_cols mat])) [y..<m_rows mat])) s"
  using assms
proof (induction y mat func s rule: pair_rest_rows.induct)
  case (1 y mat func s)
  show ?case
  proof (cases "y < m_rows mat")
    case True
    have next_row: "1 \<le> y + 1" by simp
    let ?F = "\<lambda>(p, q). func (visited mat p) (visited mat q)"
    let ?row = "\<lambda>y. concat (map (\<lambda>x. [((y - 1, x), (y, x)), ((y, x - 1), (y, x))])
      [1..<m_cols mat])"
    let ?s' = "pair_rest_cols 1 mat (row_ptr mat (to_int (int y - 1)) + 1)
      (row_ptr mat (to_int (int y))) (row_ptr mat (to_int (int y)) + 1) func s"
    have "pair_rest_rows y mat func s = pair_rest_rows (y + 1) mat func ?s'"
      using True by (simp add: pair_rest_rows.simps [of y])
    also have "\<dots> = fold ?F (concat (map ?row [y + 1..<m_rows mat])) ?s'"
      using "1.IH" [OF True next_row] .
    also have "?s' = fold ?F (?row y) s"
      by (rule pair_rest_row_positions [OF "1.prems"])
    also have "fold ?F (concat (map ?row [y + 1..<m_rows mat])) (fold ?F (?row y) s) =
        fold ?F (concat (map ?row [y..<m_rows mat])) s"
      using True by (simp add: upt_conv_Cons)
    finally show ?thesis .
  next
    case False
    then show ?thesis by (simp add: pair_rest_rows.simps [of y])
  qed
qed

lemma pair_first_column_positions:
  "pair_first_column 1 mat (row_ptr mat 0) (row_ptr mat 1) func s =
     fold (\<lambda>(p, q). func (cell mat p) (cell mat q))
       (map (\<lambda>y. ((y - 1, 0), (y, 0))) [1..<m_rows mat]) s"
  by (simp add: pair_first_column_fold upt_from_1 [of "m_rows mat"] fold_map comp_def cell_def
      elem_def row_ptr_def algebra_simps)

lemma pair_first_row_positions:
  "pair_first_row 1 mat (row_ptr mat 0) (row_ptr mat 0 + 1) func s =
     fold (\<lambda>(p, q). func (cell mat p) (cell mat q))
       (map (\<lambda>x. ((0, x - 1), (0, x))) [1..<m_cols mat]) s"
  by (simp add: pair_first_row_fold upt_from_1 [of "m_cols mat"] fold_map comp_def cell_def
      elem_def row_ptr_def algebra_simps)

lemma for_each_pair_visited:
  "for_each_pair mat func s =
     fold (\<lambda>(p, q). func (visited mat p) (visited mat q))
       (inner_edges (m_rows mat) (m_cols mat))
       (fold (\<lambda>(p, q). func (cell mat p) (cell mat q))
          (column_edges (m_rows mat) @ row_edges (m_cols mat)) s)"
  unfolding for_each_pair_def column_edges_def row_edges_def inner_edges_def Let_def
  by (simp only: pair_first_column_positions pair_first_row_positions
      pair_rest_rows_fold [OF order_refl] fold_append comp_apply)

lemma pair_positions_parts:
  "pair_positions R C = column_edges R @ row_edges C @ inner_edges R C"
  by (simp add: pair_positions_def column_edges_def row_edges_def inner_edges_def)

lemma in_inner_edges:
  assumes "e \<in> set (inner_edges R C)"
  shows "fst (fst e) < R \<and> fst (snd e) < R"
proof -
  from assms have "\<exists>y x. y < R \<and> (e = ((y - 1, x), (y, x)) \<or> e = ((y, x - 1), (y, x)))"
    unfolding inner_edges_def by auto
  then show ?thesis
    by auto
qed

lemma fold_inner_edges_cong:
  assumes "R \<le> 2 ^ 31"
    and "\<And>p q. fst p < 2 ^ 31 \<Longrightarrow> fst q < 2 ^ 31 \<Longrightarrow> f (p, q) = g (p, q)"
  shows "fold f (inner_edges R C) s = fold g (inner_edges R C) s"
proof (rule fold_cong)
  fix e
  assume "e \<in> set (inner_edges R C)"
  then have "fst (fst e) < 2 ^ 31" "fst (snd e) < 2 ^ 31"
    using in_inner_edges [of e R C] assms(1) by simp_all
  then have "f (fst e, snd e) = g (fst e, snd e)"
    by (rule assms(2))
  then show "f e = g e"
    by simp
qed simp_all

lemma for_each_pair_fold:
  assumes "m_rows mat \<le> 2 ^ 31"
  shows "for_each_pair mat func s =
     fold (\<lambda>(p, q). func (cell mat p) (cell mat q)) (pair_positions (m_rows mat) (m_cols mat)) s"
proof -
  have "fold (\<lambda>(p, q). func (visited mat p) (visited mat q))
        (inner_edges (m_rows mat) (m_cols mat)) t =
      fold (\<lambda>(p, q). func (cell mat p) (cell mat q)) (inner_edges (m_rows mat) (m_cols mat)) t"
    for t
    by (rule fold_inner_edges_cong [OF assms]) (simp add: visited_cell)
  then show ?thesis
    by (simp add: for_each_pair_visited pair_positions_parts)
qed


section \<open>The order of pairwise iteration\<close>

text \<open>
  C4, for grids whose row indices fit the \<^verbatim>\<open>int\<close> parameter of \<^verbatim>\<open>operator[]\<close>. On a
  grid of at most \<open>2 ^ 31\<close> rows,
  \<^verbatim>\<open>for_each_pair\<close> calls the functor first on the vertical edges of column 0 from
  top to bottom, then on the horizontal edges of row 0 from left to right, then for each
  row \<open>y = 1..R-1\<close> and each column \<open>x = 1..C-1\<close> on the vertical pair
  \<open>((y-1, x), (y, x))\<close> followed by the horizontal pair \<open>((y, x-1), (y, x))\<close>; each call
  gets the element of the upper or left position first and that of the lower or right
  position second. The recording functor sees exactly this list of address pairs.
\<close>

theorem for_each_pair_order:
  assumes "m_rows mat \<le> 2 ^ 31"
  shows "for_each_pair mat func s =
     fold (\<lambda>(p, q). func (cell mat p) (cell mat q))
       (map (\<lambda>y. ((y - 1, 0), (y, 0))) [1..<m_rows mat] @
        map (\<lambda>x. ((0, x - 1), (0, x))) [1..<m_cols mat] @
        concat (map (\<lambda>y. concat (map (\<lambda>x. [((y - 1, x), (y, x)), ((y, x - 1), (y, x))])
          [1..<m_cols mat])) [1..<m_rows mat])) s
   \<and> for_each_pair mat record_pair [] =
     map (\<lambda>(p, q). (cell mat p, cell mat q))
       (map (\<lambda>y. ((y - 1, 0), (y, 0))) [1..<m_rows mat] @
        map (\<lambda>x. ((0, x - 1), (0, x))) [1..<m_cols mat] @
        concat (map (\<lambda>y. concat (map (\<lambda>x. [((y - 1, x), (y, x)), ((y, x - 1), (y, x))])
          [1..<m_cols mat])) [1..<m_rows mat]))"
proof -
  have rec: "fold (\<lambda>(p, q). record_pair (cell mat p) (cell mat q)) ps tr =
      tr @ map (\<lambda>(p, q). (cell mat p, cell mat q)) ps" for ps tr
    by (induction ps arbitrary: tr) (simp_all add: record_pair_def split: prod.splits)
  show ?thesis
    using for_each_pair_fold [OF assms, of func s] for_each_pair_fold [OF assms, of record_pair "[]"]
    unfolding pair_positions_def rec by simp
qed

theorem for_each_pair_order_witness:
  "m_rows \<lparr>m_start = 0, m_rows = 3, m_cols = 3, m_step = 3\<rparr> \<le> 2 ^ 31
   \<and> for_each_pair \<lparr>m_start = 0, m_rows = 3, m_cols = 3, m_step = 3\<rparr> record_pair [] =
     [(0, 3), (3, 6), (0, 1), (1, 2), (1, 4), (3, 4), (2, 5), (4, 5), (4, 7), (6, 7), (5, 8),
      (7, 8)]"
proof -
  have few: "m_rows \<lparr>m_start = 0, m_rows = 3, m_cols = 3, m_step = 3\<rparr> \<le> 2 ^ 31"
    by simp
  have "for_each_pair \<lparr>m_start = 0, m_rows = 3, m_cols = 3, m_step = 3\<rparr> record_pair [] =
     map (\<lambda>(p, q). (cell \<lparr>m_start = 0, m_rows = 3, m_cols = 3, m_step = 3\<rparr> p,
                      cell \<lparr>m_start = 0, m_rows = 3, m_cols = 3, m_step = 3\<rparr> q))
       (map (\<lambda>y. ((y - 1, 0), (y, 0))) [1..<3] @
        map (\<lambda>x. ((0, x - 1), (0, x))) [1..<3] @
        concat (map (\<lambda>y. concat (map (\<lambda>x. [((y - 1, x), (y, x)), ((y, x - 1), (y, x))])
          [1..<3])) [1..<3]))"
    using for_each_pair_order [OF few, of ignore_pair "[]", THEN conjunct2]
    by (simp only: matrix_wrapper.select_convs)
  also have "\<dots> = [(0, 3), (3, 6), (0, 1), (1, 2), (1, 4), (3, 4), (2, 5), (4, 5), (4, 7),
      (6, 7), (5, 8), (7, 8)]"
    by code_simp
  finally show ?thesis
    using few by simp
qed

section \<open>Every neighbouring pair is visited exactly once\<close>

lemma length_concat_pairs:
  "length (concat (map (\<lambda>y. concat (map (\<lambda>x. [a y x, b y x]) xs)) ys)) =
     2 * length xs * length ys"
proof -
  have inner: "length (concat (map (\<lambda>x. [a y x, b y x]) xs)) = 2 * length xs" for y
    by (induction xs) simp_all
  show ?thesis
    by (induction ys) (simp_all add: inner)
qed

lemma length_pair_positions:
  "length (pair_positions R C) = (R - 1) + (C - 1) + 2 * (C - 1) * (R - 1)"
  by (simp add: pair_positions_def length_concat_pairs)

lemma count_pair_positions:
  assumes "1 \<le> R" and "1 \<le> C"
  shows "length (pair_positions R C) = R * (C - 1) + C * (R - 1)"
proof -
  obtain r c where R: "R = Suc r" and C: "C = Suc c"
    using assms by (metis One_nat_def Suc_le_D)
  show ?thesis
    by (simp add: length_pair_positions R C algebra_simps)
qed


lemma in_concat_pairs:
  "e \<in> set (concat (map (\<lambda>y. concat (map (\<lambda>x. [v y x, h y x]) xs)) ys)) \<longleftrightarrow>
     (\<exists>y\<in>set ys. \<exists>x\<in>set xs. e = v y x \<or> e = h y x)"
  by auto

lemma in_pair_positions:
  "e \<in> set (pair_positions R C) \<longleftrightarrow>
     (\<exists>y. 1 \<le> y \<and> y < R \<and> e = ((y - 1, 0), (y, 0))) \<or>
     (\<exists>x. 1 \<le> x \<and> x < C \<and> e = ((0, x - 1), (0, x))) \<or>
     (\<exists>y x. 1 \<le> y \<and> y < R \<and> 1 \<le> x \<and> x < C \<and>
        (e = ((y - 1, x), (y, x)) \<or> e = ((y, x - 1), (y, x))))"
proof -
  have a: "e \<in> set (map (\<lambda>y. ((y - 1, 0 :: nat), (y, 0 :: nat))) [1..<R]) \<longleftrightarrow>
      (\<exists>y. 1 \<le> y \<and> y < R \<and> e = ((y - 1, 0), (y, 0)))"
    by auto
  have b: "e \<in> set (map (\<lambda>x. ((0 :: nat, x - 1), (0 :: nat, x))) [1..<C]) \<longleftrightarrow>
      (\<exists>x. 1 \<le> x \<and> x < C \<and> e = ((0, x - 1), (0, x)))"
    by auto
  have c: "(\<exists>y\<in>set [1..<R]. \<exists>x\<in>set [1..<C].
        e = ((y - 1, x), (y, x)) \<or> e = ((y, x - 1), (y, x))) \<longleftrightarrow>
      (\<exists>y x. 1 \<le> y \<and> y < R \<and> 1 \<le> x \<and> x < C \<and>
        (e = ((y - 1, x), (y, x)) \<or> e = ((y, x - 1), (y, x))))"
    unfolding Bex_def set_upt atLeastLessThan_iff by blast
  show ?thesis
    unfolding pair_positions_def set_append Un_iff in_concat_pairs a b c ..
qed

lemma pair_positions_oriented:
  assumes "1 \<le> R" and "1 \<le> C" and "(p, q) \<in> set (pair_positions R C)"
  shows "in_grid R C p \<and> in_grid R C q \<and> below_or_right p q"
proof -
  from assms(3) consider
      (col0) y where "1 \<le> y" "y < R" "p = (y - 1, 0)" "q = (y, 0)"
    | (row0) x where "1 \<le> x" "x < C" "p = (0, x - 1)" "q = (0, x)"
    | (vert) y x where "1 \<le> y" "y < R" "1 \<le> x" "x < C" "p = (y - 1, x)" "q = (y, x)"
    | (horz) y x where "1 \<le> y" "y < R" "1 \<le> x" "x < C" "p = (y, x - 1)" "q = (y, x)"
    unfolding in_pair_positions by blast
  then show ?thesis
    using assms(1,2) by cases (simp_all add: in_grid_def below_or_right_def)
qed

lemma pair_positions_complete:
  assumes "in_grid R C q" and "below_or_right p q"
  shows "(p, q) \<in> set (pair_positions R C)"
proof -
  obtain y x where q: "q = (y, x)" by (cases q)
  obtain y' x' where p: "p = (y', x')" by (cases p)
  have yx: "y < R" "x < C"
    using assms(1) by (simp_all add: in_grid_def q)
  from assms(2) consider (down) "y = y' + 1" "x = x'" | (right) "y = y'" "x = x' + 1"
    unfolding below_or_right_def p q by auto
  then show ?thesis
  proof cases
    case down
    show ?thesis
    proof (cases "x = 0")
      case True
      have "1 \<le> y \<and> y < R \<and> (p, q) = ((y - 1, 0), (y, 0))"
        using down yx True by (simp add: p q)
      then show ?thesis unfolding in_pair_positions by blast
    next
      case False
      have "1 \<le> y \<and> y < R \<and> 1 \<le> x \<and> x < C \<and> (p, q) = ((y - 1, x), (y, x))"
        using down yx False by (simp add: p q)
      then show ?thesis unfolding in_pair_positions by blast
    qed
  next
    case right
    show ?thesis
    proof (cases "y = 0")
      case True
      have "1 \<le> x \<and> x < C \<and> (p, q) = ((0, x - 1), (0, x))"
        using right yx True by (simp add: p q)
      then show ?thesis unfolding in_pair_positions by blast
    next
      case False
      have "1 \<le> y \<and> y < R \<and> 1 \<le> x \<and> x < C \<and> (p, q) = ((y, x - 1), (y, x))"
        using right yx False by (simp add: p q)
      then show ?thesis unfolding in_pair_positions by blast
    qed
  qed
qed

lemma in_concat_map: "e \<in> set (concat (map f ys)) \<longleftrightarrow> (\<exists>y\<in>set ys. e \<in> set (f y))"
  by auto

lemma distinct_concat_map:
  assumes "distinct xs"
    and "\<And>x. x \<in> set xs \<Longrightarrow> distinct (f x)"
    and "\<And>x y. x \<in> set xs \<Longrightarrow> y \<in> set xs \<Longrightarrow> x \<noteq> y \<Longrightarrow> set (f x) \<inter> set (f y) = {}"
  shows "distinct (concat (map f xs))"
  using assms
proof (induction xs)
  case Nil
  then show ?case by simp
next
  case (Cons a xs)
  have "distinct (concat (map f xs))"
    using Cons by simp
  moreover have "distinct (f a)"
    using Cons.prems(2) by simp
  moreover have "set (f a) \<inter> set (concat (map f xs)) = {}"
  proof -
    have "set (f a) \<inter> set (f y) = {}" if "y \<in> set xs" for y
      using Cons.prems(1) Cons.prems(3) [of a y] that by auto
    then show ?thesis by auto
  qed
  ultimately show ?case by simp
qed

lemma distinct_pair_positions: "distinct (pair_positions R C)"
proof -
  let ?fc = "map (\<lambda>y. ((y - 1, 0 :: nat), (y, 0 :: nat))) [1..<R]"
  let ?fr = "map (\<lambda>x. ((0 :: nat, x - 1), (0 :: nat, x))) [1..<C]"
  let ?row = "\<lambda>y :: nat.
    concat (map (\<lambda>x. [((y - 1, x), (y, x)), ((y, x - 1), (y, x))]) [1..<C])"
  let ?rest = "concat (map ?row [1..<R])"
  have col0: "distinct ?fc"
    by (simp add: distinct_map inj_on_def)
  have row0: "distinct ?fr"
    by (simp add: distinct_map inj_on_def)
  have in_row: "e \<in> set (?row y) \<longleftrightarrow>
      (\<exists>x. 1 \<le> x \<and> x < C \<and> (e = ((y - 1, x), (y, x)) \<or> e = ((y, x - 1), (y, x))))" for e y
    by auto
  have row: "distinct (?row y)" if "1 \<le> y" for y
  proof (rule distinct_concat_map)
    show "distinct [1..<C]" by simp
    show "distinct [((y - 1, x), (y, x)), ((y, x - 1), (y, x))]" for x
      using that by auto
    show "set [((y - 1, x), (y, x)), ((y, x - 1), (y, x))] \<inter>
        set [((y - 1, x'), (y, x')), ((y, x' - 1), (y, x'))] = {}" if "x \<noteq> x'" for x x'
      using that by simp
  qed
  have rest: "distinct ?rest"
  proof (rule distinct_concat_map)
    show "distinct [1..<R]" by simp
    show "distinct (?row y)" if "y \<in> set [1..<R]" for y
      using that by (intro row) simp
    show "set (?row y) \<inter> set (?row y') = {}" if "y \<noteq> y'" for y y'
    proof -
      have "e \<notin> set (?row y')" if "e \<in> set (?row y)" for e
        using that \<open>y \<noteq> y'\<close> unfolding in_row by auto
      then show ?thesis by blast
    qed
  qed
  have in_col0: "snd (snd e) = 0 \<and> 1 \<le> fst (snd e)" if "e \<in> set ?fc" for e
    using that by auto
  have in_row0: "fst (snd e) = 0" if "e \<in> set ?fr" for e
    using that by auto
  have in_rest: "1 \<le> fst (snd e) \<and> 1 \<le> snd (snd e)" if "e \<in> set ?rest" for e
  proof -
    from that [THEN in_concat_map [THEN iffD1]]
    obtain y where "y \<in> set [1..<R]" and "e \<in> set (?row y)"
      by blast
    from this(2) [unfolded in_row] this(1) show ?thesis
      by auto
  qed
  have d1: "set ?fc \<inter> set ?fr = {}"
  proof -
    have False if "e \<in> set ?fc" and "e \<in> set ?fr" for e
      using in_col0 [OF that(1)] in_row0 [OF that(2)] by simp
    then show ?thesis by blast
  qed
  have d2: "set ?fc \<inter> set ?rest = {}"
  proof -
    have False if "e \<in> set ?fc" and "e \<in> set ?rest" for e
      using in_col0 [OF that(1)] in_rest [OF that(2)] by simp
    then show ?thesis by blast
  qed
  have d3: "set ?fr \<inter> set ?rest = {}"
  proof -
    have False if "e \<in> set ?fr" and "e \<in> set ?rest" for e
      using in_row0 [OF that(1)] in_rest [OF that(2)] by simp
    then show ?thesis by blast
  qed
  show ?thesis
    unfolding pair_positions_def distinct_append set_append
    using col0 row0 rest d1 d2 d3 by blast
qed

lemma count_list_distinct:
  "distinct xs \<Longrightarrow> count_list xs x = (if x \<in> set xs then 1 else 0)"
  by (induction xs) auto

lemma pair_positions_unordered_once:
  assumes "in_grid R C p" and "in_grid R C q" and "adjacent p q"
  shows "count_list (pair_positions R C) (p, q) + count_list (pair_positions R C) (q, p) = 1"
proof -
  have R: "1 \<le> R" and C: "1 \<le> C"
    using assms(1) by (auto simp: in_grid_def)
  have pq: "(p, q) \<in> set (pair_positions R C) \<longleftrightarrow> below_or_right p q"
    using pair_positions_oriented [OF R C, of p q] pair_positions_complete [OF assms(2), of p]
    by blast
  have qp: "(q, p) \<in> set (pair_positions R C) \<longleftrightarrow> below_or_right q p"
    using pair_positions_oriented [OF R C, of q p] pair_positions_complete [OF assms(1), of q]
    by blast
  have count: "count_list (pair_positions R C) e =
      (if e \<in> set (pair_positions R C) then 1 else 0)" for e
    by (rule count_list_distinct [OF distinct_pair_positions])
  consider "below_or_right p q" "\<not> below_or_right q p"
    | "below_or_right q p" "\<not> below_or_right p q"
    using assms(3) unfolding adjacent_def below_or_right_def by linarith
  then show ?thesis
    by cases (simp_all add: count pq qp)
qed

text \<open>
  C3, for grids whose row indices fit the \<^verbatim>\<open>int\<close> parameter of \<^verbatim>\<open>operator[]\<close>. On a
  grid of \<open>1 \<le> R \<le> 2 ^ 31\<close> rows and \<open>C \<ge> 1\<close> columns \<^verbatim>\<open>for_each_pair\<close> calls the functor
  \<open>R * (C - 1) + C * (R - 1)\<close> times: the run is the fold over \<open>pair_positions R C\<close>, a list
  of that length in which every entry is a pair of grid positions, the second directly
  below or right of the first, and in which every unordered pair of 4-adjacent grid
  positions occurs once, in one of its two orders. On a 1 x 1 grid the list is empty.
\<close>

theorem for_each_pair_exactly_once:
  assumes "1 \<le> m_rows mat" and "1 \<le> m_cols mat" and "m_rows mat \<le> 2 ^ 31"
  shows "for_each_pair mat func s =
           fold (\<lambda>(p, q). func (cell mat p) (cell mat q))
             (pair_positions (m_rows mat) (m_cols mat)) s
       \<and> length (pair_positions (m_rows mat) (m_cols mat)) =
           m_rows mat * (m_cols mat - 1) + m_cols mat * (m_rows mat - 1)
       \<and> (\<forall>(p, q) \<in> set (pair_positions (m_rows mat) (m_cols mat)).
            in_grid (m_rows mat) (m_cols mat) p \<and> in_grid (m_rows mat) (m_cols mat) q \<and>
            below_or_right p q)
       \<and> (\<forall>p q. in_grid (m_rows mat) (m_cols mat) p \<and> in_grid (m_rows mat) (m_cols mat) q \<and>
            adjacent p q \<longrightarrow>
            count_list (pair_positions (m_rows mat) (m_cols mat)) (p, q) +
            count_list (pair_positions (m_rows mat) (m_cols mat)) (q, p) = 1)
       \<and> pair_positions 1 1 = []"
proof -
  have "pair_positions 1 1 = []"
    by (simp add: pair_positions_def)
  moreover have "in_grid (m_rows mat) (m_cols mat) p \<and> in_grid (m_rows mat) (m_cols mat) q \<and>
      below_or_right p q" if "(p, q) \<in> set (pair_positions (m_rows mat) (m_cols mat))" for p q
    using pair_positions_oriented [OF assms(1,2) that] .
  ultimately show ?thesis
    using for_each_pair_fold [OF assms(3), of func s] count_pair_positions [OF assms(1,2)]
      pair_positions_unordered_once [of "m_rows mat" "m_cols mat"]
    by blast
qed


theorem for_each_pair_exactly_once_witness:
  "1 \<le> m_rows \<lparr>m_start = 0, m_rows = 3, m_cols = 3, m_step = 3\<rparr>
   \<and> 1 \<le> m_cols \<lparr>m_start = 0, m_rows = 3, m_cols = 3, m_step = 3\<rparr>
   \<and> m_rows \<lparr>m_start = 0, m_rows = 3, m_cols = 3, m_step = 3\<rparr> \<le> 2 ^ 31
   \<and> length (for_each_pair \<lparr>m_start = 0, m_rows = 3, m_cols = 3, m_step = 3\<rparr>
         record_pair []) = 12
   \<and> count_list (pair_positions 3 3) ((1, 1), (1, 2)) +
     count_list (pair_positions 3 3) ((1, 2), (1, 1)) = 1"
proof -
  let ?M = "\<lparr>m_start = 0, m_rows = 3, m_cols = 3, m_step = 3\<rparr>"
  have r: "1 \<le> m_rows ?M" and c: "1 \<le> m_cols ?M" and few: "m_rows ?M \<le> 2 ^ 31"
    by simp_all
  note th = for_each_pair_exactly_once [OF r c few, of record_pair "[]",
      unfolded matrix_wrapper.select_convs]
  have run: "for_each_pair ?M record_pair [] =
      fold (\<lambda>(p, q). record_pair (cell ?M p) (cell ?M q)) (pair_positions 3 3) []"
    using th [THEN conjunct1] .
  have len: "length (pair_positions 3 3) = 12"
    using th [THEN conjunct2, THEN conjunct1] by simp
  have rec: "fold (\<lambda>(p, q). record_pair (cell ?M p) (cell ?M q)) ps tr =
      tr @ map (\<lambda>(p, q). (cell ?M p, cell ?M q)) ps" for ps tr
    by (induction ps arbitrary: tr) (simp_all add: record_pair_def split: prod.splits)
  have "count_list (pair_positions 3 3) ((1, 1), (1, 2)) +
      count_list (pair_positions 3 3) ((1, 2), (1, 1)) = 1"
    using th [THEN conjunct2, THEN conjunct2, THEN conjunct2, THEN conjunct1, rule_format,
        of "(1, 1)" "(1, 2)"]
    by (simp add: in_grid_def adjacent_def)
  then show ?thesis
    using r c few by (simp add: run rec len)
qed

section \<open>Pairwise iteration on more rows than an int counts\<close>

lemma for_each_pair_trace:
  "for_each_pair m record_pair [] =
     map (\<lambda>(p, q). (cell m p, cell m q)) (column_edges (m_rows m) @ row_edges (m_cols m)) @
     map (\<lambda>(p, q). (visited m p, visited m q)) (inner_edges (m_rows m) (m_cols m))"
proof -
  have rec: "fold (\<lambda>(p, q). record_pair (f p) (f q)) ps tr = tr @ map (\<lambda>(p, q). (f p, f q)) ps"
    for f :: "nat \<times> nat \<Rightarrow> addr" and ps tr
    by (induction ps arbitrary: tr) (simp_all add: record_pair_def split: prod.splits)
  show ?thesis
    unfolding for_each_pair_visited rec by simp
qed

lemma inner_edges_two_columns:
  "inner_edges R 2 = concat (map (\<lambda>y. [((y - 1, 1), (y, 1)), ((y, 0), (y, 1))]) [1..<R])"
proof -
  have "[1..<2] = [1 :: nat]"
    by (simp add: upt_rec)
  then show ?thesis
    unfolding inner_edges_def by simp
qed

lemma last_concat_map:
  assumes "xs \<noteq> []" and "f (last xs) \<noteq> []"
  shows "last (concat (map f xs)) = last (f (last xs))"
proof -
  have whole: "butlast xs @ [last xs] = xs"
    using assms(1) by simp
  have "concat (map f (butlast xs @ [last xs])) = concat (map f (butlast xs)) @ f (last xs)"
    by (simp only: map_append concat_append list.map concat.simps append_Nil2)
  then have "concat (map f xs) = concat (map f (butlast xs)) @ f (last xs)"
    unfolding whole .
  then show ?thesis
    using assms(2) by simp
qed

lemma last_pair_two_columns:
  assumes "m_cols m = 2" and "1 < m_rows m"
  shows "last (for_each_pair m record_pair []) =
    (visited m (m_rows m - 1, 0), visited m (m_rows m - 1, 1))"
proof -
  let ?row = "\<lambda>y :: nat. [((y - 1, 1 :: nat), (y, 1 :: nat)), ((y, 0), (y, 1))]"
  have rows: "[1..<m_rows m] \<noteq> []" "last [1..<m_rows m] = m_rows m - 1"
  proof -
    show "[1..<m_rows m] \<noteq> []"
      using assms(2) by auto
    show "last [1..<m_rows m] = m_rows m - 1"
      using assms(2) by (rule last_upt)
  qed
  have "last (concat (map ?row [1..<m_rows m])) = last (?row (last [1..<m_rows m]))"
    by (rule last_concat_map [OF rows(1)]) simp
  then have inner: "last (inner_edges (m_rows m) 2) = ((m_rows m - 1, 0), (m_rows m - 1, 1))"
    unfolding rows(2) by (simp add: inner_edges_two_columns)
  have filled: "inner_edges (m_rows m) 2 \<noteq> []"
  proof -
    obtain y ys where split: "[1..<m_rows m] = y # ys"
      using rows(1) by (cases "[1..<m_rows m]") simp_all
    show ?thesis
      unfolding inner_edges_two_columns split by simp
  qed
  show ?thesis
    unfolding for_each_pair_trace assms(1)
    using filled inner by (simp add: last_map)
qed

lemma in_for_each_pair_trace:
  assumes "e \<in> set (for_each_pair m record_pair [])"
  shows "(\<exists>y. 1 \<le> y \<and> e = (cell m (y - 1, 0), cell m (y, 0))) \<or>
    (\<exists>x. 1 \<le> x \<and> x < m_cols m \<and> e = (cell m (0, x - 1), cell m (0, x))) \<or>
    (\<exists>y x. 1 \<le> x \<and> x < m_cols m \<and>
       (e = (visited m (y - 1, x), visited m (y, x)) \<or>
        e = (visited m (y, x - 1), visited m (y, x))))"
proof -
  from assms consider
      (col0) "e \<in> set (map (\<lambda>(p, q). (cell m p, cell m q)) (column_edges (m_rows m)))"
    | (row0) "e \<in> set (map (\<lambda>(p, q). (cell m p, cell m q)) (row_edges (m_cols m)))"
    | (rest) "e \<in> set (map (\<lambda>(p, q). (visited m p, visited m q))
        (inner_edges (m_rows m) (m_cols m)))"
    unfolding for_each_pair_trace map_append set_append Un_iff by blast
  then show ?thesis
  proof cases
    case col0
    then have "\<exists>y. 1 \<le> y \<and> e = (cell m (y - 1, 0), cell m (y, 0))"
      unfolding column_edges_def by auto
    then show ?thesis by blast
  next
    case row0
    then have "\<exists>x. 1 \<le> x \<and> x < m_cols m \<and> e = (cell m (0, x - 1), cell m (0, x))"
      unfolding row_edges_def by auto
    then show ?thesis by blast
  next
    case rest
    then obtain d where d: "d \<in> set (inner_edges (m_rows m) (m_cols m))"
      and e: "e = (visited m (fst d), visited m (snd d))"
      by (auto simp: split_def)
    from d [unfolded inner_edges_def in_concat_pairs]
    obtain y x where "x \<in> set [1..<m_cols m]"
      and "d = ((y - 1, x), (y, x)) \<or> d = ((y, x - 1), (y, x))"
      by blast
    then have "1 \<le> x \<and> x < m_cols m \<and>
        (e = (visited m (y - 1, x), visited m (y, x)) \<or>
         e = (visited m (y, x - 1), visited m (y, x)))"
      using e by auto
    then show ?thesis
      by blast
  qed
qed

text \<open>
  C4, as the claim states it, fails on a grid of more rows than an \<^verbatim>\<open>int\<close> counts: on
  \<open>2 ^ 31 + 1\<close> rows of two elements the last call is to receive the elements of the
  positions \<open>(2 ^ 31, 0)\<close> and \<open>(2 ^ 31, 1)\<close>, at the addresses \<open>2 ^ 32\<close> and \<open>2 ^ 32 + 1\<close>;
  it receives the addresses \<open>- 2 ^ 32\<close> and \<open>- 2 ^ 32 + 1\<close>, before the grid.
\<close>

theorem for_each_pair_order_counterexample:
  "last (for_each_pair \<lparr>m_start = 0, m_rows = 2147483649, m_cols = 2, m_step = 2\<rparr>
      record_pair []) = (- 4294967296, - 4294967295)
   \<and> (cell \<lparr>m_start = 0, m_rows = 2147483649, m_cols = 2, m_step = 2\<rparr> (2147483648, 0),
      cell \<lparr>m_start = 0, m_rows = 2147483649, m_cols = 2, m_step = 2\<rparr> (2147483648, 1))
     = (4294967296, 4294967297)"
proof -
  let ?G = "\<lparr>m_start = 0, m_rows = 2147483649, m_cols = 2, m_step = 2\<rparr>"
  have "last (for_each_pair ?G record_pair []) =
      (visited ?G (m_rows ?G - 1, 0), visited ?G (m_rows ?G - 1, 1))"
    by (rule last_pair_two_columns) simp_all
  also have "\<dots> = (- 4294967296, - 4294967295)"
    by (simp add: visited_def row_ptr_def to_int_def)
  finally show ?thesis
    by (simp add: cell_def elem_def row_ptr_def)
qed

text \<open>
  C3, as the claim states it, fails on the same grid: the pair of the positions
  \<open>(2 ^ 31 - 1, 1)\<close> and \<open>(2 ^ 31, 1)\<close>, whose elements are at the addresses \<open>2 ^ 32 - 1\<close> and
  \<open>2 ^ 32 + 1\<close>, is passed to the functor in no call.
\<close>

theorem for_each_pair_exactly_once_counterexample:
  "(cell \<lparr>m_start = 0, m_rows = 2147483649, m_cols = 2, m_step = 2\<rparr> (2147483647, 1),
    cell \<lparr>m_start = 0, m_rows = 2147483649, m_cols = 2, m_step = 2\<rparr> (2147483648, 1))
     = (4294967295, 4294967297)
   \<and> (4294967295, 4294967297) \<notin>
       set (for_each_pair \<lparr>m_start = 0, m_rows = 2147483649, m_cols = 2, m_step = 2\<rparr>
         record_pair [])"
proof -
  let ?G = "\<lparr>m_start = 0, m_rows = 2147483649, m_cols = 2, m_step = 2\<rparr>"
  have c: "cell ?G (y, x) = 2 * int y + int x" for y x
    by (simp add: cell_def elem_def row_ptr_def)
  have v: "visited ?G (y, x) = 2 * to_int (int y) + int x" for y x
    by (simp add: visited_def row_ptr_def)
  have False if "(4294967295, 4294967297) \<in> set (for_each_pair ?G record_pair [])"
  proof -
    from in_for_each_pair_trace [OF that] consider
        (col0) y where "(4294967295, 4294967297) = (cell ?G (y - 1, 0), cell ?G (y, 0))"
      | (row0) x where "1 \<le> x" "x < 2"
          "(4294967295, 4294967297) = (cell ?G (0, x - 1), cell ?G (0, x))"
      | (vert) y x where "1 \<le> x" "x < 2"
          "(4294967295, 4294967297) = (visited ?G (y - 1, x), visited ?G (y, x))"
      | (horz) y x where "1 \<le> x" "x < 2"
          "(4294967295, 4294967297) = (visited ?G (y, x - 1), visited ?G (y, x))"
      by auto
    then show False
    proof cases
      case col0
      then have "2 * int y = 4294967297"
        by (simp add: c)
      then show False by presburger
    next
      case row0
      then show False by (simp add: c)
    next
      case vert
      then have "x = 1" and "2 * to_int (int y) + 1 = 4294967297"
        by (simp_all add: v)
      then have "to_int (int y) = 2147483648"
        by simp
      then show False
        using to_int_range [of "int y"] by simp
    next
      case horz
      then have "x = 1" and "2 * to_int (int y) = 4294967295"
        by (simp_all add: v)
      then show False by presburger
    qed
  qed
  then show ?thesis
    by (auto simp: c)
qed

section \<open>Pairwise iteration over two, three and four matrices\<close>

























section \<open>What a shape mismatch does\<close>











section \<open>clone is a deep copy\<close>

lemma to_size_t_int: "n < 2 ^ 64 \<Longrightarrow> to_size_t (int n) = n"
proof -
  assume "n < 2 ^ 64"
  then have "int n < 2 ^ 64"
    by (metis of_nat_less_iff of_nat_numeral of_nat_power)
  then show ?thesis
    by (simp add: to_size_t_def)
qed

lemma copy_rows_below:
  assumes "m_rows src \<le> 2 ^ 31" and "a < row_ptr dst (int y)"
  shows "copy_rows y src dst h a = h a"
  using assms
proof (induction y src dst h rule: copy_rows.induct)
  case (1 y src dst h)
  show ?case
  proof (cases "y < m_rows src")
    case True
    then have "y < 2 ^ 31"
      using "1.prems"(1) by simp
    then have row: "to_int (int y) = int y"
      by (rule to_int_nat)
    have "row_ptr dst (int y) \<le> row_ptr dst (int (y + 1))"
      by (simp add: row_ptr_def algebra_simps)
    then have below: "a < row_ptr dst (int (y + 1))"
      using "1.prems"(2) by simp
    have "copy_rows y src dst h a =
        copy_rows (y + 1) src dst (memcpy h (row_ptr dst (int y)) (row_ptr src (int y)) (m_cols src)) a"
      using True by (simp add: copy_rows.simps [of y] row)
    also have "\<dots> = memcpy h (row_ptr dst (int y)) (row_ptr src (int y)) (m_cols src) a"
      using "1.IH" [OF True "1.prems"(1) below [unfolded row [symmetric]]] below
      by (simp add: row)
    also have "\<dots> = h a"
      using "1.prems"(2) by (simp add: memcpy_def)
    finally show ?thesis .
  next
    case False
    then show ?thesis by (simp add: copy_rows.simps [of y])
  qed
qed

lemma copy_rows_copies:
  assumes "y0 \<le> y" and "y < m_rows src" and "x < m_cols src"
    and "m_cols src \<le> m_step dst"
    and "\<forall>y'<m_rows src. \<forall>x'<m_cols src. cell src (y', x') < m_start dst"
    and "m_rows src \<le> 2 ^ 31"
  shows "copy_rows y0 src dst h (cell dst (y, x)) = h (cell src (y, x))"
  using assms
proof (induction y0 src dst h rule: copy_rows.induct)
  case (1 y0 src dst h)
  let ?h1 = "memcpy h (row_ptr dst (int y0)) (row_ptr src (int y0)) (m_cols src)"
  have y0: "y0 < m_rows src"
    using "1.prems"(1,2) by simp
  then have "y0 < 2 ^ 31"
    using "1.prems"(6) by simp
  then have row: "to_int (int y0) = int y0"
    by (rule to_int_nat)
  have unfold: "copy_rows y0 src dst h = copy_rows (y0 + 1) src dst ?h1"
    using y0 by (simp add: copy_rows.simps [of y0] row)
  show ?case
  proof (cases "y = y0")
    case True
    have "int x < int (m_step dst)"
      using "1.prems"(3,4) by simp
    then have "cell dst (y, x) < row_ptr dst (int (y0 + 1))"
      using True by (simp add: cell_def elem_def row_ptr_def algebra_simps)
    then have "copy_rows (y0 + 1) src dst ?h1 (cell dst (y, x)) = ?h1 (cell dst (y, x))"
      by (rule copy_rows_below [OF "1.prems"(6)])
    also have "\<dots> = h (cell src (y, x))"
      using "1.prems"(3) True by (simp add: memcpy_def cell_def elem_def)
    finally show ?thesis
      by (simp add: unfold)
  next
    case False
    then have le: "y0 + 1 \<le> y"
      using "1.prems"(1) by simp
    have "copy_rows (y0 + 1) src dst
        (memcpy h (row_ptr dst (to_int (int y0))) (row_ptr src (to_int (int y0))) (m_cols src))
        (cell dst (y, x)) =
      memcpy h (row_ptr dst (to_int (int y0))) (row_ptr src (to_int (int y0))) (m_cols src)
        (cell src (y, x))"
      using "1.IH" [OF y0 le "1.prems"(2-6)] .
    then have "copy_rows (y0 + 1) src dst ?h1 (cell dst (y, x)) = ?h1 (cell src (y, x))"
      by (simp add: row)
    also have "\<dots> = h (cell src (y, x))"
    proof -
      have "cell src (y, x) < m_start dst"
        using "1.prems"(2,3,5) by simp
      also have "\<dots> \<le> row_ptr dst (int y0)"
        by (simp add: row_ptr_def)
      finally show ?thesis
        by (simp add: memcpy_def)
    qed
    finally show ?thesis
      by (simp add: unfold)
  qed
qed


lemma cell_index_bound:
  assumes "y < R" and "x < C"
  shows "int C * int y + int x < int (R * C)"
proof -
  have "C * y + x < C * y + C"
    using assms(2) by simp
  also have "\<dots> = C * Suc y"
    by simp
  also have "\<dots> \<le> C * R"
    using assms(1) by (intro mult_le_mono2) simp
  finally have "C * y + x < R * C"
    by (simp add: mult.commute)
  then have "int (C * y + x) < int (R * C)"
    by (rule iffD2 [OF of_nat_less_iff])
  then show ?thesis
    by simp
qed

text \<open>
  C7, for grids that fit the \<^verbatim>\<open>int\<close> parameters of the Matrix constructor. For a grid
  \<open>g\<close> whose storage is live and whose rows, columns and element count are below
  \<open>2 ^ 31\<close>, \<^verbatim>\<open>g.clone()\<close> returns a grid of the same rows and columns whose element at
  every position equals that of \<open>g\<close>; its cells lie in the block allocated by the call,
  \<open>g\<close> itself is unchanged, and a later write to a cell of one grid leaves every cell of
  the other as it was.
\<close>

theorem clone_deep_copy:
  assumes "valid_in g h"
    and "m_rows g < 2 ^ 31" and "m_cols g < 2 ^ 31" and "m_rows g * m_cols g < 2 ^ 31"
  shows "\<exists>c h'. clone ndebug g h = Some (c, h')
     \<and> m_rows c = m_rows g \<and> m_cols c = m_cols g
     \<and> (\<forall>y<m_rows g. \<forall>x<m_cols g.
          contents h' (cell c (y, x)) = contents h (cell g (y, x)))
     \<and> (\<forall>y<m_rows g. \<forall>x<m_cols g.
          contents h' (cell g (y, x)) = contents h (cell g (y, x)))
     \<and> (\<forall>y<m_rows g. \<forall>x<m_cols g.
          next_free h \<le> cell c (y, x) \<and> cell c (y, x) < next_free h')
     \<and> (\<forall>y<m_rows g. \<forall>x<m_cols g. \<forall>y'<m_rows g. \<forall>x'<m_cols g. \<forall>v.
          mem_write (contents h') (cell c (y, x)) v (cell g (y', x')) =
            contents h' (cell g (y', x')) \<and>
          mem_write (contents h') (cell g (y', x')) v (cell c (y, x)) =
            contents h' (cell c (y, x)))"
proof -
  let ?R = "m_rows g" and ?C = "m_cols g" and ?N = "next_free h"
  let ?c = "\<lparr>m_start = ?N, m_rows = ?R, m_cols = ?C, m_step = ?C\<rparr>"
  let ?h' = "h\<lparr>next_free := ?N + int (?R * ?C), contents := copy_rows 0 g ?c (contents h)\<rparr>"
  have small: "(2 :: nat) ^ 31 \<le> 2 ^ 64"
    by simp
  have R: "to_size_t (int ?R) = ?R" and C: "to_size_t (int ?C) = ?C"
    using assms(2,3) small to_size_t_int [of ?R] to_size_t_int [of ?C]
    by simp_all
  have Ri: "to_int (int ?R) = int ?R" and Ci: "to_int (int ?C) = int ?C"
    and RCi: "to_int (int (?R * ?C)) = int (?R * ?C)"
    using assms(2-4) by (simp_all only: to_int_nat)
  have few: "?R \<le> 2 ^ 31"
    using assms(2) by simp
  have made: "create (to_int (int ?R)) (to_int (int ?C)) h =
      Some (?c, h\<lparr>next_free := ?N + int (?R * ?C)\<rparr>)"
  proof -
    have count: "to_int (int ?R * int ?C) = int (?R * ?C)"
      using RCi by simp
    have "0 \<le> int ?R * int ?C"
      by simp
    then have nonneg: "\<not> int ?R * int ?C < 0"
      by (simp only: not_less)
    show ?thesis
      unfolding create_def Ri Ci count Let_def by (simp add: new_array_def R C nonneg)
  qed
  have run: "clone ndebug g h = Some (?c, ?h')"
    by (simp add: clone_def made copy_to_def assert_that_def)
  have g_below: "cell g (y, x) < ?N" if "y < ?R" "x < ?C" for y x
    using assms(1) that by (simp add: valid_in_def)
  have c_cell: "cell ?c (y, x) = ?N + (int ?C * int y + int x)" for y x
    by (simp add: cell_def elem_def row_ptr_def)
  have c_lower: "?N \<le> cell ?c (y, x)" for y x
    by (simp add: c_cell)
  have c_upper: "cell ?c (y, x) < ?N + int (?R * ?C)" if "y < ?R" "x < ?C" for y x
    using cell_index_bound [OF that] by (simp add: c_cell)
  have copied: "contents ?h' (cell ?c (y, x)) = contents h (cell g (y, x))"
    if "y < ?R" "x < ?C" for y x
  proof -
    have "copy_rows 0 g ?c (contents h) (cell ?c (y, x)) = contents h (cell g (y, x))"
      using that g_below few by (intro copy_rows_copies) simp_all
    then show ?thesis by simp
  qed
  have kept: "contents ?h' (cell g (y, x)) = contents h (cell g (y, x))"
    if "y < ?R" "x < ?C" for y x
  proof -
    have "cell g (y, x) < row_ptr ?c (int 0)"
      using g_below [OF that] by (simp add: row_ptr_def)
    then have "copy_rows 0 g ?c (contents h) (cell g (y, x)) = contents h (cell g (y, x))"
      by (rule copy_rows_below [OF few])
    then show ?thesis by simp
  qed
  have apart: "cell ?c (y, x) \<noteq> cell g (y', x')" if "y' < ?R" "x' < ?C" for y x y' x'
    using g_below [OF that] c_lower [of y x] by simp
  have indep: "mem_write (contents ?h') (cell ?c (y, x)) v (cell g (y', x')) =
        contents ?h' (cell g (y', x')) \<and>
      mem_write (contents ?h') (cell g (y', x')) v (cell ?c (y, x)) =
        contents ?h' (cell ?c (y, x))"
    if "y' < ?R" "x' < ?C" for y x y' x' v
    using apart [OF that, of y x] by (simp add: mem_write_def)
  have "m_rows ?c = ?R \<and> m_cols ?c = ?C
     \<and> (\<forall>y<?R. \<forall>x<?C. contents ?h' (cell ?c (y, x)) = contents h (cell g (y, x)))
     \<and> (\<forall>y<?R. \<forall>x<?C. contents ?h' (cell g (y, x)) = contents h (cell g (y, x)))
     \<and> (\<forall>y<?R. \<forall>x<?C. ?N \<le> cell ?c (y, x) \<and> cell ?c (y, x) < next_free ?h')
     \<and> (\<forall>y<?R. \<forall>x<?C. \<forall>y'<?R. \<forall>x'<?C. \<forall>v.
          mem_write (contents ?h') (cell ?c (y, x)) v (cell g (y', x')) =
            contents ?h' (cell g (y', x')) \<and>
          mem_write (contents ?h') (cell g (y', x')) v (cell ?c (y, x)) =
            contents ?h' (cell ?c (y, x)))"
    using copied kept c_lower c_upper indep by simp
  with run show ?thesis
    by blast
qed


theorem clone_deep_copy_witness:
  "valid_in \<lparr>m_start = 0, m_rows = 2, m_cols = 2, m_step = 3\<rparr>
     \<lparr>contents = (\<lambda>a. a * 10), next_free = 6\<rparr>
   \<and> m_rows \<lparr>m_start = 0, m_rows = 2, m_cols = 2, m_step = 3\<rparr> < 2 ^ 31
   \<and> m_cols \<lparr>m_start = 0, m_rows = 2, m_cols = 2, m_step = 3\<rparr> < 2 ^ 31
   \<and> (\<exists>c h'. clone False \<lparr>m_start = 0, m_rows = 2, m_cols = 2, m_step = 3\<rparr>
          \<lparr>contents = (\<lambda>a. a * 10), next_free = 6\<rparr> = Some (c, h')
        \<and> m_rows c = 2 \<and> m_cols c = 2
        \<and> contents h' (cell c (1, 1)) = 40
        \<and> mem_write (contents h') (cell c (1, 1)) 99
             (cell \<lparr>m_start = 0, m_rows = 2, m_cols = 2, m_step = 3\<rparr> (1, 1)) = 40)"
proof -
  let ?G = "\<lparr>m_start = 0, m_rows = 2, m_cols = 2, m_step = 3\<rparr>"
  let ?H = "\<lparr>contents = (\<lambda>a :: int. a * 10), next_free = 6\<rparr>"
  have v: "valid_in ?G ?H"
    by (auto simp: valid_in_def cell_def elem_def row_ptr_def)
  have r: "m_rows ?G < 2 ^ 31" and c: "m_cols ?G < 2 ^ 31" and rc: "m_rows ?G * m_cols ?G < 2 ^ 31"
    by simp_all
  from clone_deep_copy [OF v r c rc, of False]
  obtain k h' where run: "clone False ?G ?H = Some (k, h')"
    and shape: "m_rows k = m_rows ?G" "m_cols k = m_cols ?G"
    and copied: "\<forall>y<m_rows ?G. \<forall>x<m_cols ?G.
      contents h' (cell k (y, x)) = contents ?H (cell ?G (y, x))"
    and kept: "\<forall>y<m_rows ?G. \<forall>x<m_cols ?G.
      contents h' (cell ?G (y, x)) = contents ?H (cell ?G (y, x))"
    and indep: "\<forall>y<m_rows ?G. \<forall>x<m_cols ?G. \<forall>y'<m_rows ?G. \<forall>x'<m_cols ?G. \<forall>v.
      mem_write (contents h') (cell k (y, x)) v (cell ?G (y', x')) =
        contents h' (cell ?G (y', x')) \<and>
      mem_write (contents h') (cell ?G (y', x')) v (cell k (y, x)) =
        contents h' (cell k (y, x))"
    by blast
  have one: "(1 :: nat) < m_rows ?G" "(1 :: nat) < m_cols ?G"
    by simp_all
  have "contents h' (cell k (1, 1)) = 40"
    using copied [rule_format, OF one] by (simp add: cell_def elem_def row_ptr_def)
  moreover have "mem_write (contents h') (cell k (1, 1)) 99 (cell ?G (1, 1)) = 40"
    using indep [rule_format, OF one one, of 99] kept [rule_format, OF one]
    by (simp add: cell_def elem_def row_ptr_def)
  ultimately show ?thesis
    using v run shape by simp
qed

text \<open>
  C7, as the claim states it, fails on a grid whose element count does not fit an
  \<^verbatim>\<open>int\<close>. For a grid of 65536 x 65536 elements, live in a heap whose frontier is at
  \<open>2 ^ 32\<close>, the count \<^verbatim>\<open>rows * cols\<close> is 0 in 32 bits: \<^verbatim>\<open>clone\<close> returns a grid of 65536
  rows and columns that starts at the frontier, and the frontier has not moved: no
  element of the clone lies in storage allocated for it.
\<close>

theorem clone_deep_copy_counterexample:
  "map_option (m_start \<circ> fst)
     (clone False \<lparr>m_start = 0, m_rows = 65536, m_cols = 65536, m_step = 65536\<rparr>
        \<lparr>contents = id, next_free = 4294967296\<rparr>) = Some 4294967296
   \<and> map_option (m_rows \<circ> fst)
     (clone False \<lparr>m_start = 0, m_rows = 65536, m_cols = 65536, m_step = 65536\<rparr>
        \<lparr>contents = id, next_free = 4294967296\<rparr>) = Some 65536
   \<and> map_option (m_cols \<circ> fst)
     (clone False \<lparr>m_start = 0, m_rows = 65536, m_cols = 65536, m_step = 65536\<rparr>
        \<lparr>contents = id, next_free = 4294967296\<rparr>) = Some 65536
   \<and> map_option (next_free \<circ> snd)
     (clone False \<lparr>m_start = 0, m_rows = 65536, m_cols = 65536, m_step = 65536\<rparr>
        \<lparr>contents = id, next_free = 4294967296\<rparr>) = Some 4294967296"
proof -
  let ?G = "\<lparr>m_start = 0, m_rows = 65536, m_cols = 65536, m_step = 65536\<rparr>"
  let ?H = "\<lparr>contents = id :: int \<Rightarrow> int, next_free = 4294967296\<rparr>"
  let ?c = "\<lparr>m_start = 4294967296, m_rows = 65536, m_cols = 65536, m_step = 65536\<rparr>"
  have made: "create (to_int (int 65536)) (to_int (int 65536)) ?H = Some (?c, ?H)"
    by (simp add: create_def new_array_def to_int_def to_size_t_def)
  have "clone False ?G ?H = Some (?c, ?H\<lparr>contents := copy_rows 0 ?G ?c (contents ?H)\<rparr>)"
    using made by (simp add: clone_def copy_to_def assert_that_def)
  then show ?thesis
    by simp
qed

section \<open>filter reads outside the input when the kernel is much higher than wide\<close>

lemma for_each_cols2_noted:
  "for_each_cols2 x n p1 p2 (note_outside m) (Some v) = Some v"
proof (induction x n p1 p2 "note_outside m" "Some v :: (addr \<times> addr) option"
    rule: for_each_cols2.induct)
  case (1 x n p1 p2)
  have keep: "note_outside m p1 p2 (Some v) = Some v"
    by (simp add: note_outside_def)
  show ?case
  proof (cases "x < n")
    case True
    then show ?thesis
      using "1.hyps" [OF True] by (simp add: for_each_cols2.simps [of x] keep)
  next
    case False
    then show ?thesis by (simp add: for_each_cols2.simps [of x])
  qed
qed

lemma for_each_rows2_noted:
  "for_each_rows2 y m1 m2 (note_outside m) (Some v) = Some v"
proof (induction y m1 m2 "note_outside m" "Some v :: (addr \<times> addr) option"
    rule: for_each_rows2.induct)
  case (1 y m1 m2)
  show ?case
  proof (cases "y < m_rows m1")
    case True
    then show ?thesis
      using "1.hyps" [OF True]
      by (simp add: for_each_rows2.simps [of y] for_each_cols2_noted)
  next
    case False
    then show ?thesis by (simp add: for_each_rows2.simps [of y])
  qed
qed

lemma crop_ndebug:
  "crop True m tp lf rows cols =
     Some \<lparr>m_start = m_start m + int (m_step m) * tp + lf, m_rows = rows, m_cols = cols,
           m_step = m_step m\<rparr>"
  by (simp add: crop_def assert_that_def)

lemma parse_with_check_noted:
  "parse_with_check True input output kern (note_outside m) ignore_addr x y (Some v) =
     Some (Some v)"
  by (simp add: parse_with_check_def Let_def crop_ndebug for_each2_def assert_that_def
      for_each_rows2_noted ignore_addr_def)

lemma parse_central_noted:
  "parse_central True input output kern (note_outside m) ignore_addr x y (Some v) =
     Some (Some v)"
  by (simp add: parse_central_def crop_ndebug for_each2_def assert_that_def
      for_each_rows2_noted ignore_addr_def)

lemma for_int_kept:
  assumes "\<And>j. body j s = Some s"
  shows "for_int i n body s = Some s"
  using assms
proof (induction i n body s rule: for_int.induct)
  case (1 i n body s)
  show ?case
  proof (cases "0 \<le> i \<and> i < int n")
    case True
    have "for_int i n body s = for_int (i + 1) n body s"
      using True "1.prems" [of i] by (simp add: for_int.simps [of i])
    also have "\<dots> = Some s"
      using "1.IH" [OF True "1.prems" [of i] "1.prems"] .
    finally show ?thesis .
  next
    case False
    then show ?thesis by (auto simp: for_int.simps [of i])
  qed
qed

lemma for_int_step:
  assumes "0 \<le> i" and "i < int n" and "body i s = Some s'"
  shows "for_int i n body s = for_int (i + 1) n body s'"
  using assms by (simp add: for_int.simps [of i])

lemma for_int_split:
  assumes "0 \<le> i" and "i \<le> int k" and "k \<le> n" and "for_int i k body s = Some s'"
  shows "for_int i n body s = for_int (int k) n body s'"
  using assms
proof (induction i k body s rule: for_int.induct)
  case (1 i k body s)
  show ?case
  proof (cases "i < int k")
    case True
    with "1.prems"(1) have guard: "0 \<le> i \<and> i < int k"
      by simp
    from "1.prems"(4) guard obtain s1 where s1: "body i s = Some s1"
      and rest: "for_int (i + 1) k body s1 = Some s'"
      by (auto simp: for_int.simps [of i k] split: option.splits)
    have "for_int i n body s = for_int (i + 1) n body s1"
      using guard "1.prems"(3) s1 by (intro for_int_step) simp_all
    also have "\<dots> = for_int (int k) n body s'"
      using "1.IH" [OF guard s1 _ _ "1.prems"(3) rest] guard by simp
    finally show ?thesis .
  next
    case False
    with "1.prems"(2) have "i = int k"
      by simp
    moreover from this "1.prems"(4) have "s' = s"
      by (simp add: for_int.simps [of "int k" k])
    ultimately show ?thesis by simp
  qed
qed

lemma filter_2d_release_run:
  "filter_2d True \<lparr>m_start = 0, m_rows = 28, m_cols = 4, m_step = 10\<rparr>
     \<lparr>m_start = 1000, m_rows = 28, m_cols = 4, m_step = 10\<rparr>
     \<lparr>m_start = 2000, m_rows = 13, m_cols = 1, m_step = 1\<rparr>
     (note_outside \<lparr>m_start = 0, m_rows = 28, m_cols = 4, m_step = 10\<rparr>) ignore_addr None
   = Some (Some (5, 2000))"
proof -
  let ?I = "\<lparr>m_start = 0, m_rows = 28, m_cols = 4, m_step = 10\<rparr>"
  let ?O = "\<lparr>m_start = 1000, m_rows = 28, m_cols = 4, m_step = 10\<rparr>"
  let ?K = "\<lparr>m_start = 2000, m_rows = 13, m_cols = Suc 0, m_step = Suc 0\<rparr>"
  let ?checked = "parse_with_check True ?I ?O ?K (note_outside ?I) ignore_addr"
  let ?central = "parse_central True ?I ?O ?K (note_outside ?I) ignore_addr"
  let ?v = "Some (5, 2000) :: (addr \<times> addr) option"
  have top: "for_int 0 6 (\<lambda>y. for_int 0 4 (\<lambda>x. ?checked x y)) None = Some None"
    by code_simp
  have bottom: "for_int 22 28 (\<lambda>y. for_int 0 4 (\<lambda>x. ?checked x y)) None = Some None"
    by code_simp
  have inside: "for_int 0 5 (\<lambda>x. ?checked x 6) None = Some None"
    by code_simp
  have first: "?checked 5 6 None = Some ?v"
  proof -
    let ?win = "\<lparr>m_start = 5, m_rows = 13, m_cols = 18446744073709551615, m_step = 10\<rparr>"
    let ?ker = "\<lparr>m_start = 2000, m_rows = 13, m_cols = 18446744073709551615, m_step = Suc 0\<rparr>"
    have "for_each_rows2 0 ?win ?ker (note_outside ?I) None =
        for_each_rows2 1 ?win ?ker (note_outside ?I)
          (for_each_cols2 0 18446744073709551615 5 2000 (note_outside ?I) None)"
      by (simp add: for_each_rows2.simps [of 0] row_ptr_def to_int_def)
    also have "for_each_cols2 0 18446744073709551615 5 2000 (note_outside ?I) None =
        for_each_cols2 1 18446744073709551615 6 2001 (note_outside ?I) ?v"
      by (simp add: for_each_cols2.simps [of 0] note_outside_def in_extent_def)
    also have "\<dots> = ?v"
      by (rule for_each_cols2_noted)
    also have "for_each_rows2 1 ?win ?ker (note_outside ?I) ?v = ?v"
      by (rule for_each_rows2_noted)
    finally have loops: "for_each_rows2 0 ?win ?ker (note_outside ?I) None = ?v" .
    show ?thesis
      by (simp add: parse_with_check_def crop_ndebug to_size_t_def to_int_def for_each2_def assert_that_def
          loops ignore_addr_def)
  qed
  have row6: "for_int 0 6 (\<lambda>x. ?checked x 6) None = Some ?v"
  proof -
    have "for_int 0 6 (\<lambda>x. ?checked x 6) None = for_int (int 5) 6 (\<lambda>x. ?checked x 6) None"
      using inside by (intro for_int_split) simp_all
    then have "for_int 0 6 (\<lambda>x. ?checked x 6) None = for_int 5 6 (\<lambda>x. ?checked x 6) None"
      by simp
    also have "\<dots> = for_int 6 6 (\<lambda>x. ?checked x 6) ?v"
      using for_int_step [of 5 6 "\<lambda>x. ?checked x 6" None ?v] first by simp
    also have "\<dots> = Some ?v"
      by (simp add: for_int.simps [of 6])
    finally show ?thesis .
  qed
  have left: "for_int 6 22 (\<lambda>y. for_int 0 6 (\<lambda>x. ?checked x y)) None = Some ?v"
  proof -
    have kept: "for_int 0 6 (\<lambda>x. ?checked x j) ?v = Some ?v" for j
      by (intro for_int_kept parse_with_check_noted)
    have "for_int 6 22 (\<lambda>y. for_int 0 6 (\<lambda>x. ?checked x y)) None =
        for_int (6 + 1) 22 (\<lambda>y. for_int 0 6 (\<lambda>x. ?checked x y)) ?v"
      using row6 by (intro for_int_step) simp_all
    also have "\<dots> = Some ?v"
      by (intro for_int_kept kept)
    finally show ?thesis .
  qed
  have right: "for_int 6 22 (\<lambda>y. for_int (- 2) 4 (\<lambda>x. ?checked x y)) ?v = Some ?v"
    by (intro for_int_kept parse_with_check_noted)
  have central: "for_int 6 22 (\<lambda>y. for_int 0 4 (\<lambda>x. ?central x y)) ?v = Some ?v"
    by (intro for_int_kept parse_central_noted)
  show ?thesis
    by (simp add: filter_2d_def Let_def assert_that_def to_size_t_def to_int_def top bottom left right
        central)
qed


lemma for_int_abort:
  assumes "0 \<le> i" and "i < int n" and "body i s = None"
  shows "for_int i n body s = None"
  using assms by (simp add: for_int.simps [of i])

lemma filter_2d_debug_run:
  "filter_2d False \<lparr>m_start = 0, m_rows = 28, m_cols = 4, m_step = 10\<rparr>
     \<lparr>m_start = 1000, m_rows = 28, m_cols = 4, m_step = 10\<rparr>
     \<lparr>m_start = 2000, m_rows = 13, m_cols = 1, m_step = 1\<rparr>
     (note_outside \<lparr>m_start = 0, m_rows = 28, m_cols = 4, m_step = 10\<rparr>) ignore_addr None
   = None"
proof -
  let ?I = "\<lparr>m_start = 0, m_rows = 28, m_cols = 4, m_step = 10\<rparr>"
  let ?O = "\<lparr>m_start = 1000, m_rows = 28, m_cols = 4, m_step = 10\<rparr>"
  let ?K = "\<lparr>m_start = 2000, m_rows = 13, m_cols = Suc 0, m_step = Suc 0\<rparr>"
  let ?checked = "parse_with_check False ?I ?O ?K (note_outside ?I) ignore_addr"
  have top: "for_int 0 6 (\<lambda>y. for_int 0 4 (\<lambda>x. ?checked x y)) None = Some None"
    by code_simp
  have bottom: "for_int 22 28 (\<lambda>y. for_int 0 4 (\<lambda>x. ?checked x y)) None = Some None"
    by code_simp
  have inside: "for_int 0 5 (\<lambda>x. ?checked x 6) None = Some None"
    by code_simp
  have first: "?checked 5 6 None = None"
    by (simp add: parse_with_check_def crop_def assert_that_def to_size_t_def to_int_def)
  have row6: "for_int 0 6 (\<lambda>x. ?checked x 6) None = None"
  proof -
    have "for_int 0 6 (\<lambda>x. ?checked x 6) None = for_int (int 5) 6 (\<lambda>x. ?checked x 6) None"
      using inside by (intro for_int_split) simp_all
    also have "\<dots> = None"
      using for_int_abort [of 5 6 "\<lambda>x. ?checked x 6" None] first by simp
    finally show ?thesis .
  qed
  have left: "for_int 6 22 (\<lambda>y. for_int 0 6 (\<lambda>x. ?checked x y)) None = None"
    using for_int_abort [of 6 22 "\<lambda>y. for_int 0 6 (\<lambda>x. ?checked x y)" None] row6 by simp
  show ?thesis
    by (simp add: filter_2d_def Let_def assert_that_def to_size_t_def to_int_def top bottom left)
qed

text \<open>
  C8. A 13 x 1 kernel on a 28 x 4 input (row step 10) meets the assertions of \<^verbatim>\<open>filter\<close>.
  The left band runs \<open>x\<close> over \<open>[0, 6)\<close>, the half height of the kernel, though the image
  has 4 columns. With \<^verbatim>\<open>NDEBUG\<close>, at \<open>y = 6\<close>, \<open>x = 5\<close> the window is cropped at column 5
  with the width \<open>4 - 5\<close> converted to \<^verbatim>\<open>size_t\<close>, and the first call of the accumulate
  functor there receives the input address 5 (row 0, column 5), which is no cell of the
  input, together with the kernel address 2000. With assertions enabled the run aborts
  at that position, in the assertion of the kernel's \<^verbatim>\<open>crop\<close>.
\<close>


theorem filter_2d_reads_outside_input:
  "filter_2d True \<lparr>m_start = 0, m_rows = 28, m_cols = 4, m_step = 10\<rparr>
     \<lparr>m_start = 1000, m_rows = 28, m_cols = 4, m_step = 10\<rparr>
     \<lparr>m_start = 2000, m_rows = 13, m_cols = 1, m_step = 1\<rparr>
     (note_outside \<lparr>m_start = 0, m_rows = 28, m_cols = 4, m_step = 10\<rparr>) ignore_addr None
   = Some (Some (5, 2000))
   \<and> filter_2d False \<lparr>m_start = 0, m_rows = 28, m_cols = 4, m_step = 10\<rparr>
     \<lparr>m_start = 1000, m_rows = 28, m_cols = 4, m_step = 10\<rparr>
     \<lparr>m_start = 2000, m_rows = 13, m_cols = 1, m_step = 1\<rparr>
     (note_outside \<lparr>m_start = 0, m_rows = 28, m_cols = 4, m_step = 10\<rparr>) ignore_addr None
   = None"
  using filter_2d_release_run filter_2d_debug_run by (rule conjI)

section \<open>What crop and set do establish\<close>

text \<open>
  A crop that passes its assertion, or is not checked, moves the start by
  \<open>step * top + left\<close> and keeps the step.
\<close>

theorem crop_origin:
  assumes "crop ndebug v tp lf rows cols = Some sub"
  shows "m_start sub = m_start v + int (m_step v) * tp + lf \<and> m_step sub = m_step v
    \<and> m_rows sub = rows \<and> m_cols sub = cols"
  using assms by (auto simp: crop_def assert_that_def split: if_splits)

theorem crop_origin_witness:
  "crop False \<lparr>m_start = 0, m_rows = 3, m_cols = 3, m_step = 3\<rparr> 1 1 1 1
     = Some \<lparr>m_start = 4, m_rows = 1, m_cols = 1, m_step = 3\<rparr>
   \<and> m_start \<lparr>m_start = 4, m_rows = 1, m_cols = 1, m_step = 3\<rparr> = 0 + int 3 * 1 + 1"
proof -
  have run: "crop False \<lparr>m_start = 0, m_rows = 3, m_cols = 3, m_step = 3\<rparr> 1 1 1 1
      = Some \<lparr>m_start = 4, m_rows = 1, m_cols = 1, m_step = 3\<rparr>"
    by code_simp
  from crop_origin [OF run] show ?thesis
    using run by simp
qed

text \<open>
  Without assertions (\<^verbatim>\<open>NDEBUG\<close>) a crop followed by the crop with the negated offsets and
  the original size gives back the original view, whatever the offsets and sizes.
\<close>

theorem crop_reversal_unchecked:
  "crop True v a b r c \<bind> (\<lambda>sub. crop True sub (- a) (- b) (m_rows v) (m_cols v)) = Some v"
  by (cases v) (simp add: crop_def assert_that_def algebra_simps)

text \<open>
  With assertions the reversal passes only for a crop that reaches the last row and the
  last column of the view.
\<close>

theorem crop_reversal_checked:
  assumes "0 \<le> a" and "0 \<le> b" and "a + int r \<le> int (m_rows v)" and "b + int c \<le> int (m_cols v)"
    and "m_rows v < 2 ^ 63" and "m_cols v < 2 ^ 63"
  shows "crop False v a b r c \<bind> (\<lambda>sub. crop False sub (- a) (- b) (m_rows v) (m_cols v)) =
    (if a + int r = int (m_rows v) \<and> b + int c = int (m_cols v) then Some v else None)"
proof -
  have R: "int (m_rows v) < 2 ^ 63" and C: "int (m_cols v) < 2 ^ 63"
    using assms(5,6) by (metis of_nat_less_iff of_nat_numeral of_nat_power)+
  have up: "(2 :: int) ^ 63 \<le> 2 ^ 64"
    by simp
  let ?sub = "\<lparr>m_start = m_start v + int (m_step v) * a + b, m_rows = r, m_cols = c,
    m_step = m_step v\<rparr>"
  have fwd: "to_size_t (a + int r) = nat (a + int r)" "to_size_t (b + int c) = nat (b + int c)"
    using assms(1-4) R C up by (simp_all add: to_size_t_def)
  have undo: "to_size_t (- a + int (m_rows v)) = nat (int (m_rows v) - a)"
    "to_size_t (- b + int (m_cols v)) = nat (int (m_cols v) - b)"
    using assms(1-4) R C up by (simp_all add: to_size_t_def)
  have fits: "nat (a + int r) \<le> m_rows v" "nat (b + int c) \<le> m_cols v"
    using assms(1-4) by linarith+
  have first: "crop False v a b r c = Some ?sub"
    by (simp add: crop_def assert_that_def fwd fits)
  have whole: "\<lparr>m_start = m_start ?sub + int (m_step ?sub) * (- a) + (- b), m_rows = m_rows v,
      m_cols = m_cols v, m_step = m_step ?sub\<rparr> = v"
    by (simp add: algebra_simps)
  have second: "crop False ?sub (- a) (- b) (m_rows v) (m_cols v) =
      (if a + int r = int (m_rows v) \<and> b + int c = int (m_cols v) then Some v else None)"
    unfolding crop_def undo whole using assms(1-4) by (auto simp: assert_that_def)
  show ?thesis
    by (simp add: first second)
qed


theorem crop_reversal_checked_witness:
  "crop False \<lparr>m_start = 0, m_rows = 3, m_cols = 3, m_step = 3\<rparr> 1 1 2 2 \<bind>
     (\<lambda>sub. crop False sub (- 1) (- 1) 3 3)
     = Some \<lparr>m_start = 0, m_rows = 3, m_cols = 3, m_step = 3\<rparr>
   \<and> crop False \<lparr>m_start = 0, m_rows = 3, m_cols = 3, m_step = 3\<rparr> 1 1 1 1 \<bind>
     (\<lambda>sub. crop False sub (- 1) (- 1) 3 3) = None"
proof -
  let ?V = "\<lparr>m_start = 0, m_rows = 3, m_cols = 3, m_step = 3\<rparr>"
  have "crop False ?V 1 1 2 2 \<bind> (\<lambda>sub. crop False sub (- 1) (- 1) (m_rows ?V) (m_cols ?V)) =
      (if (1 :: int) + int 2 = int (m_rows ?V) \<and> (1 :: int) + int 2 = int (m_cols ?V)
       then Some ?V else None)"
    by (rule crop_reversal_checked) simp_all
  moreover have "crop False ?V 1 1 1 1 \<bind>
      (\<lambda>sub. crop False sub (- 1) (- 1) (m_rows ?V) (m_cols ?V)) =
      (if (1 :: int) + int 1 = int (m_rows ?V) \<and> (1 :: int) + int 1 = int (m_cols ?V)
       then Some ?V else None)"
    by (rule crop_reversal_checked) simp_all
  ultimately show ?thesis
    by simp
qed

text \<open>
  On a grid of at most \<open>2 ^ 31\<close> rows \<^verbatim>\<open>set\<close> writes the value to the cells \<open>(y, x)\<close>
  with \<open>y < rows\<close> and \<open>x < rows\<close> and to nothing else: every element is initialised when
  the grid has at most as many columns as rows.
\<close>

lemma set_cols_spec:
  "set_cols m v y x0 h a =
     (if \<exists>x. x0 \<le> x \<and> x < m_rows m \<and> a = row_ptr m (to_int (int y)) + int x then v else h a)"
proof (induction m v y x0 h rule: set_cols.induct)
  case (1 m v y x0 h)
  show ?case
  proof (cases "x0 < m_rows m")
    case True
    have split: "(\<exists>x. x0 \<le> x \<and> x < m_rows m \<and> a = row_ptr m (to_int (int y)) + int x) \<longleftrightarrow>
        a = row_ptr m (to_int (int y)) + int x0 \<or>
        (\<exists>x. x0 + 1 \<le> x \<and> x < m_rows m \<and> a = row_ptr m (to_int (int y)) + int x)"
    proof -
      have step: "x0 \<le> x \<longleftrightarrow> x = x0 \<or> x0 + 1 \<le> x" for x
        by arith
      show ?thesis
        unfolding step using True by blast
    qed
    have "set_cols m v y x0 h a =
        set_cols m v y (x0 + 1) (mem_write h (row_ptr m (to_int (int y)) + int x0) v) a"
      using True by (simp add: set_cols.simps [of m v y x0])
    also have "\<dots> =
        (if \<exists>x. x0 + 1 \<le> x \<and> x < m_rows m \<and> a = row_ptr m (to_int (int y)) + int x then v
         else mem_write h (row_ptr m (to_int (int y)) + int x0) v a)"
      by (rule "1.IH" [OF True])
    also have "\<dots> =
        (if \<exists>x. x0 \<le> x \<and> x < m_rows m \<and> a = row_ptr m (to_int (int y)) + int x then v else h a)"
      unfolding split by (auto simp: mem_write_def)
    finally show ?thesis .
  next
    case False
    then show ?thesis by (auto simp: set_cols.simps [of m v y x0])
  qed
qed

lemma set_rows_spec:
  "set_rows m v y0 h a =
     (if \<exists>y x. y0 \<le> y \<and> y < m_rows m \<and> x < m_rows m \<and> a = row_ptr m (to_int (int y)) + int x
      then v else h a)"
proof (induction m v y0 h rule: set_rows.induct)
  case (1 m v y0 h)
  show ?case
  proof (cases "y0 < m_rows m")
    case True
    have split: "(\<exists>y x. y0 \<le> y \<and> y < m_rows m \<and> x < m_rows m \<and> a = row_ptr m (to_int (int y)) + int x) \<longleftrightarrow>
        (\<exists>x. x < m_rows m \<and> a = row_ptr m (to_int (int y0)) + int x) \<or>
        (\<exists>y x. y0 + 1 \<le> y \<and> y < m_rows m \<and> x < m_rows m \<and> a = row_ptr m (to_int (int y)) + int x)"
    proof -
      have step: "y0 \<le> y \<longleftrightarrow> y = y0 \<or> y0 + 1 \<le> y" for y
        by arith
      show ?thesis
        unfolding step using True by blast
    qed
    have "set_rows m v y0 h a = set_rows m v (y0 + 1) (set_cols m v y0 0 h) a"
      using True by (simp add: set_rows.simps [of m v y0])
    also have "\<dots> =
        (if \<exists>y x. y0 + 1 \<le> y \<and> y < m_rows m \<and> x < m_rows m \<and> a = row_ptr m (to_int (int y)) + int x
         then v else set_cols m v y0 0 h a)"
      by (rule "1.IH" [OF True])
    also have "\<dots> =
        (if \<exists>y x. y0 \<le> y \<and> y < m_rows m \<and> x < m_rows m \<and> a = row_ptr m (to_int (int y)) + int x
         then v else h a)"
      unfolding split by (auto simp: set_cols_spec)
    finally show ?thesis .
  next
    case False
    then show ?thesis by (auto simp: set_rows.simps [of m v y0])
  qed
qed

theorem set_all_writes_square:
  assumes "m_rows m \<le> 2 ^ 31"
  shows "set_all m v h a =
     (if \<exists>y<m_rows m. \<exists>x<m_rows m. a = cell m (y, x) then v else h a)"
proof -
  have same: "row_ptr m (to_int (int y)) + int x = cell m (y, x)" if "y < m_rows m" for y x
  proof -
    have "y < 2 ^ 31"
      using that assms by simp
    then show ?thesis
      by (simp add: cell_def elem_def to_int_nat)
  qed
  have "(\<exists>y x. y < m_rows m \<and> x < m_rows m \<and> a = row_ptr m (to_int (int y)) + int x) \<longleftrightarrow>
      (\<exists>y<m_rows m. \<exists>x<m_rows m. a = cell m (y, x))"
    (is "?computed \<longleftrightarrow> ?cells")
  proof
    assume ?computed
    then obtain y x where "y < m_rows m" "x < m_rows m"
      "a = row_ptr m (to_int (int y)) + int x"
      by blast
    then have "y < m_rows m \<and> x < m_rows m \<and> a = cell m (y, x)"
      using same by simp
    then show ?cells
      by blast
  next
    assume ?cells
    then obtain y x where "y < m_rows m" "x < m_rows m" "a = cell m (y, x)"
      by blast
    then have "y < m_rows m \<and> x < m_rows m \<and> a = row_ptr m (to_int (int y)) + int x"
      using same by simp
    then show ?computed
      by blast
  qed
  then show ?thesis
    by (simp add: set_all_def set_rows_spec)
qed

theorem set_all_writes_square_witness:
  "m_rows \<lparr>m_start = 0, m_rows = 2, m_cols = 1, m_step = 3\<rparr> \<le> 2 ^ 31
   \<and> set_all \<lparr>m_start = 0, m_rows = 2, m_cols = 1, m_step = 3\<rparr> (7 :: int) (\<lambda>a. 0) 1 = 7
   \<and> set_all \<lparr>m_start = 0, m_rows = 2, m_cols = 1, m_step = 3\<rparr> (7 :: int) (\<lambda>a. 0) 2 = 0"
proof -
  let ?M = "\<lparr>m_start = 0, m_rows = 2, m_cols = 1, m_step = 3\<rparr>"
  have few: "m_rows ?M \<le> 2 ^ 31"
    by simp
  have here: "\<exists>y<m_rows ?M. \<exists>x<m_rows ?M. (1 :: int) = cell ?M (y, x)"
  proof (intro exI conjI)
    show "(1 :: int) = cell ?M (0, 1)" by (simp add: cell_def elem_def row_ptr_def)
  qed simp_all
  have there: "\<not> (\<exists>y<m_rows ?M. \<exists>x<m_rows ?M. (2 :: int) = cell ?M (y, x))"
  proof
    assume "\<exists>y<m_rows ?M. \<exists>x<m_rows ?M. (2 :: int) = cell ?M (y, x)"
    then obtain y x :: nat where "y < 2" "x < 2" "2 = 3 * int y + int x"
      by (auto simp: cell_def elem_def row_ptr_def)
    then show False
      by presburger
  qed
  have "set_all ?M (7 :: int) (\<lambda>a. 0) 1 = 7"
    using set_all_writes_square [OF few, of "7 :: int" "\<lambda>a. 0" 1] here by simp
  moreover have "set_all ?M (7 :: int) (\<lambda>a. 0) 2 = 0"
    using set_all_writes_square [OF few, of "7 :: int" "\<lambda>a. 0" 2] there by simp
  ultimately show ?thesis
    using few by simp
qed

section \<open>filter on images at least as wide as the kernel is half high\<close>

lemma for_int_fold:
  assumes "0 \<le> lo" and "\<And>i s. lo \<le> i \<Longrightarrow> i < int n \<Longrightarrow> body i s = Some (g i s)"
  shows "for_int lo n body s = Some (fold g [lo..int n - 1] s)"
  using assms
proof (induction lo n body s rule: for_int.induct)
  case (1 i n body s)
  show ?case
  proof (cases "i < int n")
    case True
    with "1.prems"(1) have guard: "0 \<le> i \<and> i < int n"
      by simp
    have now: "body i s = Some (g i s)"
      using "1.prems"(2) [of i s] True by simp
    have later: "for_int (i + 1) n body (g i s) = Some (fold g [i + 1..int n - 1] (g i s))"
      using "1.prems" by (intro "1.IH" [OF guard now]) simp_all
    have "[i..int n - 1] = i # [i + 1..int n - 1]"
      using True by (simp add: upto_rec1)
    then show ?thesis
      using guard now later by (simp add: for_int.simps [of i])
  next
    case False
    then show ?thesis
      by (simp add: for_int.simps [of i])
  qed
qed

lemma for_int_nested:
  assumes "0 \<le> ly" and "0 \<le> lx"
    and "\<And>y x s. ly \<le> y \<Longrightarrow> y < int ny \<Longrightarrow> lx \<le> x \<Longrightarrow> x < int nx \<Longrightarrow>
           body x y s = Some (g (y, x) s)"
  shows "for_int ly ny (\<lambda>y. for_int lx nx (\<lambda>x. body x y)) s =
     Some (fold g (List.product [ly..int ny - 1] [lx..int nx - 1]) s)"
proof -
  have inner: "for_int lx nx (\<lambda>x. body x y) s = Some (fold (\<lambda>x. g (y, x)) [lx..int nx - 1] s)"
    if "ly \<le> y" "y < int ny" for y s
  proof (rule for_int_fold [where g = "\<lambda>x. g (y, x)"])
    show "0 \<le> lx" by (rule assms(2))
    show "body i y t = Some (g (y, i) t)" if "lx \<le> i" "i < int nx" for i t
      using assms(3) [OF \<open>ly \<le> y\<close> \<open>y < int ny\<close> that] .
  qed
  have "for_int ly ny (\<lambda>y. for_int lx nx (\<lambda>x. body x y)) s =
      Some (fold (\<lambda>y. fold (\<lambda>x. g (y, x)) [lx..int nx - 1]) [ly..int ny - 1] s)"
  proof (rule for_int_fold [where g = "\<lambda>y. fold (\<lambda>x. g (y, x)) [lx..int nx - 1]"])
    show "0 \<le> ly" by (rule assms(1))
    show "for_int lx nx (\<lambda>x. body x i) t = Some (fold (\<lambda>x. g (i, x)) [lx..int nx - 1] t)"
      if "ly \<le> i" "i < int ny" for i t
      using inner [OF that] .
  qed
  then show ?thesis
    by (simp add: fold_product)
qed

lemma upto_as_map: "[a..a + int n - 1] = map (\<lambda>i. a + int i) [0..<n]"
proof (induction n)
  case 0
  then show ?case by simp
next
  case (Suc n)
  have "[a..a + int (Suc n) - 1] = [a..a + int n - 1] @ [a + int n]"
    using upto_rec2 [of a "a + int n"] by simp
  then show ?case
    using Suc by simp
qed

lemma product_map:
  "List.product (map f xs) (map g ys) = map (\<lambda>(i, j). (f i, g j)) (List.product xs ys)"
  by (induction xs) (simp_all add: comp_def)

lemma fold_window:
  "fold F (List.product [a..a + int h - 1] [b..b + int w - 1]) s =
     fold (\<lambda>p. F (a + int (fst p), b + int (snd p))) (row_major h w) s"
  by (simp add: upto_as_map product_map row_major_def fold_map comp_def split_def)


lemma to_size_t_nat: "0 \<le> i \<Longrightarrow> i < 2 ^ 64 \<Longrightarrow> to_size_t i = nat i"
  by (simp add: to_size_t_def)

lemma crop_in_bounds:
  assumes "0 \<le> tp + int rows" and "tp + int rows \<le> int (m_rows m)"
    and "0 \<le> lf + int cols" and "lf + int cols \<le> int (m_cols m)"
    and "int (m_rows m) < 2 ^ 64" and "int (m_cols m) < 2 ^ 64"
  shows "crop ndebug m tp lf rows cols =
     Some \<lparr>m_start = m_start m + int (m_step m) * tp + lf, m_rows = rows, m_cols = cols,
           m_step = m_step m\<rparr>"
proof -
  have "to_size_t (tp + int rows) = nat (tp + int rows)"
    using assms(1,2,5) by (intro to_size_t_nat) simp_all
  moreover have "to_size_t (lf + int cols) = nat (lf + int cols)"
    using assms(3,4,6) by (intro to_size_t_nat) simp_all
  moreover have "nat (tp + int rows) \<le> m_rows m" "nat (lf + int cols) \<le> m_cols m"
    using assms(1-4) by linarith+
  ultimately show ?thesis
    by (simp add: crop_def assert_that_def)
qed

lemma for_each2_same_shape:
  assumes "m_rows mat1 = m_rows mat2" and "m_cols mat1 = m_cols mat2"
    and "m_rows mat1 \<le> 2 ^ 31"
  shows "for_each2 ndebug mat1 mat2 func s =
     Some (fold (\<lambda>p. func (cell mat1 p) (cell mat2 p)) (row_major (m_rows mat1) (m_cols mat1)) s)"
  using assms(1,2) by (simp add: for_each2_def assert_that_def for_each_rows2_product [OF assms(3)])

lemma odd_size: "n mod 2 = 1 \<Longrightarrow> int n = 2 * int (n div 2) + 1"
  by presburger

lemma parse_with_check_in_range:
  assumes y: "0 \<le> y" "y < int (m_rows input)" and x: "0 \<le> x" "x < int (m_cols input)"
    and odd: "m_rows kern mod 2 = 1" "m_cols kern mod 2 = 1"
    and fit: "int (m_rows input) + int (m_rows kern) < 2 ^ 31"
      "int (m_cols input) + int (m_cols kern) < 2 ^ 31"
  shows "parse_with_check ndebug input output kern accm eval x y s =
     Some (filter_at input output kern accm eval (y, x) s)"
proof -
  define kr kc where "kr = int (m_rows kern div 2)" and "kc = int (m_cols kern div 2)"
  define y0 y1 x0 x1 where "y0 = max (y - kr) 0" and "y1 = min (y + kr + 1) (int (m_rows input))"
    and "x0 = max (x - kc) 0" and "x1 = min (x + kc + 1) (int (m_cols input))"
  define h w where "h = nat (y1 - y0)" and "w = nat (x1 - x0)"
  have kr: "0 \<le> kr" and kc: "0 \<le> kc"
    by (simp_all add: kr_def kc_def)
  have krows: "int (m_rows kern) = 2 * kr + 1" and kcols: "int (m_cols kern) = 2 * kc + 1"
    using odd by (simp_all add: kr_def kc_def odd_size)
  have small: "int (m_rows input) < 2 ^ 64" "int (m_cols input) < 2 ^ 64"
    "int (m_rows kern) < 2 ^ 64" "int (m_cols kern) < 2 ^ 64"
    using fit by simp_all
  have few: "m_rows input \<le> 2 ^ 31"
    using fit(1) by simp
  have conv: "to_int (x - kc) = x - kc" "to_int (x + kc + 1) = x + kc + 1"
    "to_int (int (m_cols input)) = int (m_cols input)"
    "to_int (y - kr) = y - kr" "to_int (y + kr + 1) = y + kr + 1"
    "to_int (int (m_rows input)) = int (m_rows input)"
    using y x kr kc krows kcols fit by (simp_all add: to_int_id)
  have ys: "0 \<le> y0" "y0 \<le> y" "y < y1" "y1 \<le> int (m_rows input)" "y - kr \<le> y0" "y1 \<le> y + kr + 1"
    using y kr by (simp_all add: y0_def y1_def x0_def x1_def)
  have xs: "0 \<le> x0" "x0 \<le> x" "x < x1" "x1 \<le> int (m_cols input)" "x - kc \<le> x0" "x1 \<le> x + kc + 1"
    using x kc by (simp_all add: y0_def y1_def x0_def x1_def)
  have h: "int h = y1 - y0" and w: "int w = x1 - x0"
    using ys xs by (simp_all add: h_def w_def)
  have hs: "to_size_t (y1 - y0) = h" and ws: "to_size_t (x1 - x0) = w"
    using ys xs small by (simp_all add: h_def w_def to_size_t_nat)
  let ?window = "\<lparr>m_start = m_start input + int (m_step input) * y0 + x0, m_rows = h, m_cols = w,
    m_step = m_step input\<rparr>"
  let ?weights = "\<lparr>m_start = m_start kern + int (m_step kern) * (y0 - y + kr) + (x0 - x + kc),
    m_rows = h, m_cols = w, m_step = m_step kern\<rparr>"
  have window: "crop ndebug input y0 x0 h w = Some ?window"
    using ys xs small h w by (intro crop_in_bounds) simp_all
  have weights: "crop ndebug kern (y0 - y + kr) (x0 - x + kc) h w = Some ?weights"
    using ys xs small h w krows kcols by (intro crop_in_bounds) simp_all
  have "h \<le> m_rows input"
    using ys by (simp add: h_def)
  then have "h \<le> 2 ^ 31"
    using few by simp
  then have loops: "for_each2 ndebug ?window ?weights accm s =
      Some (fold (\<lambda>p. accm (cell ?window p) (cell ?weights p)) (row_major h w) s)"
    using for_each2_same_shape [of ?window ?weights ndebug accm s] by simp
  have cells: "fold (\<lambda>p. accm (cell ?window p) (cell ?weights p)) (row_major h w) s =
      fold (\<lambda>q. accm (elem input (fst q) (snd q)) (elem kern (fst q - y + kr) (snd q - x + kc)))
        (window_cells input kern y x) s"
  proof -
    have "window_cells input kern y x =
        List.product [y0..y0 + int h - 1] [x0..x0 + int w - 1]"
      by (simp add: window_cells_def y0_def y1_def x0_def x1_def kr_def kc_def h w)
    then show ?thesis
      by (simp add: fold_window cell_def elem_def row_ptr_def algebra_simps)
  qed
  have offsets: "to_int (y0 - y + kr) = y0 - y + kr" "to_int (x0 - x + kc) = x0 - x + kc"
    using ys xs kr kc krows kcols fit by (simp_all add: to_int_id)
  show ?thesis
    unfolding parse_with_check_def filter_at_def Let_def fst_conv snd_conv
    unfolding kr_def [symmetric] kc_def [symmetric]
    unfolding conv
    unfolding y0_def [symmetric] y1_def [symmetric] x0_def [symmetric] x1_def [symmetric]
    unfolding offsets
    unfolding hs ws window weights
    by (simp add: loops cells)
qed


lemma parse_central_in_range:
  assumes y: "int (m_rows kern div 2) \<le> y" "y < int (m_rows input) - int (m_rows kern div 2)"
    and x: "int (m_cols kern div 2) \<le> x" "x < int (m_cols input) - int (m_cols kern div 2)"
    and odd: "m_rows kern mod 2 = 1" "m_cols kern mod 2 = 1"
    and fit: "int (m_rows input) < 2 ^ 31" "int (m_cols input) < 2 ^ 31"
  shows "parse_central ndebug input output kern accm eval x y s =
     Some (filter_at input output kern accm eval (y, x) s)"
proof -
  define kr kc where "kr = int (m_rows kern div 2)" and "kc = int (m_cols kern div 2)"
  have kr: "0 \<le> kr" and kc: "0 \<le> kc"
    by (simp_all add: kr_def kc_def)
  have krows: "int (m_rows kern) = 2 * kr + 1" and kcols: "int (m_cols kern) = 2 * kc + 1"
    using odd by (simp_all add: kr_def kc_def odd_size)
  have ys: "kr \<le> y" "y + kr + 1 \<le> int (m_rows input)"
    and xs: "kc \<le> x" "x + kc + 1 \<le> int (m_cols input)"
    using y x by (simp_all add: kr_def kc_def)
  have small: "int (m_rows input) < 2 ^ 64" "int (m_cols input) < 2 ^ 64"
    using fit by simp_all
  have few: "m_rows input \<le> 2 ^ 31"
    using fit(1) by simp
  have conv: "to_int (y - kr) = y - kr" "to_int (x - kc) = x - kc"
    using ys xs kr kc fit by (simp_all add: to_int_id)
  let ?window = "\<lparr>m_start = m_start input + int (m_step input) * (y - kr) + (x - kc),
    m_rows = m_rows kern, m_cols = m_cols kern, m_step = m_step input\<rparr>"
  have window: "crop ndebug input (y - kr) (x - kc) (m_rows kern) (m_cols kern) = Some ?window"
    using ys xs kr kc small krows kcols by (intro crop_in_bounds) simp_all
  have "int (m_rows kern) \<le> int (m_rows input)"
    using ys kr krows by simp
  then have "m_rows kern \<le> 2 ^ 31"
    using few by simp
  then have loops: "for_each2 ndebug ?window kern accm s =
      Some (fold (\<lambda>p. accm (cell ?window p) (cell kern p))
        (row_major (m_rows kern) (m_cols kern)) s)"
    using for_each2_same_shape [of ?window kern ndebug accm s] by simp
  have cells: "fold (\<lambda>p. accm (cell ?window p) (cell kern p))
        (row_major (m_rows kern) (m_cols kern)) s =
      fold (\<lambda>q. accm (elem input (fst q) (snd q)) (elem kern (fst q - y + kr) (snd q - x + kc)))
        (window_cells input kern y x) s"
  proof -
    have "max (y - kr) 0 = y - kr" "min (y + kr + 1) (int (m_rows input)) = y + kr + 1"
      "max (x - kc) 0 = x - kc" "min (x + kc + 1) (int (m_cols input)) = x + kc + 1"
      using ys xs by simp_all
    then have win: "window_cells input kern y x =
        List.product [y - kr..y - kr + int (m_rows kern) - 1]
          [x - kc..x - kc + int (m_cols kern) - 1]"
      unfolding window_cells_def kr_def [symmetric] kc_def [symmetric]
      by (simp add: krows kcols add.commute)
    have "fold (\<lambda>q. accm (elem input (fst q) (snd q))
          (elem kern (fst q - y + kr) (snd q - x + kc))) (window_cells input kern y x) s =
        fold (\<lambda>p. accm (elem input (y - kr + int (fst p)) (x - kc + int (snd p)))
          (elem kern (y - kr + int (fst p) - y + kr) (x - kc + int (snd p) - x + kc)))
          (row_major (m_rows kern) (m_cols kern)) s"
      unfolding win
      using fold_window [of "\<lambda>q. accm (elem input (fst q) (snd q))
          (elem kern (fst q - y + kr) (snd q - x + kc))" "y - kr" "m_rows kern" "x - kc"
          "m_cols kern" s]
      by simp
    then show ?thesis
      by (simp add: cell_def elem_def row_ptr_def algebra_simps)
  qed
  show ?thesis
    unfolding parse_central_def filter_at_def fst_conv snd_conv
    unfolding kr_def [symmetric] kc_def [symmetric]
    unfolding conv
    unfolding window
    by (simp add: loops cells)
qed


lemma filter_2d_bands:
  assumes odd: "m_rows kern mod 2 = 1" "m_cols kern mod 2 = 1"
    and size: "m_rows kern * 2 + 1 < m_rows input" "m_cols kern * 2 + 1 < m_cols input"
    and shape: "m_rows input = m_rows output" "m_cols input = m_cols output"
    and wide: "m_rows kern div 2 \<le> m_cols input"
    and small: "m_rows input < 2 ^ 30" "m_cols input < 2 ^ 30"
  shows "filter_2d ndebug input output kern accm eval s =
     Some (fold (filter_at input output kern accm eval) (band_order input kern) s)"
proof -
  define rows cols kr kc where "rows = int (m_rows input)" and "cols = int (m_cols input)"
    and "kr = int (m_rows kern div 2)" and "kc = int (m_cols kern div 2)"
  let ?F = "filter_at input output kern accm eval"
  let ?checked = "parse_with_check ndebug input output kern accm eval"
  let ?central = "parse_central ndebug input output kern accm eval"
  have kr: "0 \<le> kr" "2 * kr < rows" "kr \<le> cols" and kc: "0 \<le> kc" "2 * kc < cols"
    using size wide by (simp_all add: rows_def cols_def kr_def kc_def)
  have "int (m_rows input) < int (2 ^ 30)" "int (m_cols input) < int (2 ^ 30)"
    using small by (simp_all only: of_nat_less_iff)
  then have fit: "rows < 2 ^ 30" "cols < 2 ^ 30"
    by (simp_all add: rows_def cols_def)
  then have big: "rows < 2 ^ 64" "cols < 2 ^ 64"
    by simp_all
  have kfit: "int (m_rows kern) < rows" "int (m_cols kern) < cols"
    using size by (simp_all add: rows_def cols_def)
  have checked: "?checked x y t = Some (?F (y, x) t)"
    if "0 \<le> y" "y < rows" "0 \<le> x" "x < cols" for x y t
    using that odd fit kfit unfolding rows_def cols_def
    by (intro parse_with_check_in_range) simp_all
  have central: "?central x y t = Some (?F (y, x) t)"
    if "kr \<le> y" "y < rows - kr" "kc \<le> x" "x < cols - kc" for x y t
    using that odd fit unfolding rows_def cols_def kr_def kc_def
    by (intro parse_central_in_range) simp_all
  have starts: "to_int (rows - kr) = rows - kr" "to_int kr = kr"
    "to_int (cols - kr) = cols - kr" "to_int kc = kc"
    using kr kc fit by (simp_all add: to_int_id)
  have mid: "to_size_t (rows - kr) = nat (rows - kr)" "to_size_t (cols - kc) = nat (cols - kc)"
    using kr kc big by (simp_all add: to_size_t_nat)
  have top: "for_int 0 (m_rows kern div 2) (\<lambda>y. for_int 0 (m_cols input) (\<lambda>x. ?checked x y)) t =
      Some (fold ?F (List.product [0..kr - 1] [0..cols - 1]) t)" for t
    unfolding kr_def cols_def
    using kr by (intro for_int_nested checked) (simp_all add: kr_def cols_def)
  have bottom: "for_int (rows - kr) (m_rows input)
        (\<lambda>y. for_int 0 (m_cols input) (\<lambda>x. ?checked x y)) t =
      Some (fold ?F (List.product [rows - kr..rows - 1] [0..cols - 1]) t)" for t
    unfolding rows_def [symmetric] cols_def
    using kr unfolding rows_def
    by (intro for_int_nested checked) (simp_all add: rows_def cols_def)
  have left: "for_int kr (nat (rows - kr))
        (\<lambda>y. for_int 0 (m_rows kern div 2) (\<lambda>x. ?checked x y)) t =
      Some (fold ?F (List.product [kr..rows - kr - 1] [0..kr - 1]) t)" for t
  proof -
    have "int (nat (rows - kr)) - 1 = rows - kr - 1"
      using kr by simp
    moreover have "for_int kr (nat (rows - kr))
        (\<lambda>y. for_int 0 (m_rows kern div 2) (\<lambda>x. ?checked x y)) t =
      Some (fold ?F (List.product [kr..int (nat (rows - kr)) - 1]
        [0..int (m_rows kern div 2) - 1]) t)"
      using kr by (intro for_int_nested checked) (simp_all add: kr_def)
    ultimately show ?thesis
      by (simp add: kr_def)
  qed
  have right: "for_int kr (nat (rows - kr))
        (\<lambda>y. for_int (cols - kr) (m_cols input) (\<lambda>x. ?checked x y)) t =
      Some (fold ?F (List.product [kr..rows - kr - 1] [cols - kr..cols - 1]) t)" for t
  proof -
    have "int (nat (rows - kr)) - 1 = rows - kr - 1"
      using kr by simp
    moreover have "for_int kr (nat (rows - kr))
        (\<lambda>y. for_int (cols - kr) (m_cols input) (\<lambda>x. ?checked x y)) t =
      Some (fold ?F (List.product [kr..int (nat (rows - kr)) - 1]
        [cols - kr..int (m_cols input) - 1]) t)"
      using kr by (intro for_int_nested checked) (simp_all add: cols_def)
    ultimately show ?thesis
      by (simp add: cols_def)
  qed
  have centre: "for_int kr (nat (rows - kr))
        (\<lambda>y. for_int kc (nat (cols - kc)) (\<lambda>x. ?central x y)) t =
      Some (fold ?F (List.product [kr..rows - kr - 1] [kc..cols - kc - 1]) t)" for t
  proof -
    have "int (nat (rows - kr)) - 1 = rows - kr - 1" "int (nat (cols - kc)) - 1 = cols - kc - 1"
      using kr kc by simp_all
    moreover have "for_int kr (nat (rows - kr))
        (\<lambda>y. for_int kc (nat (cols - kc)) (\<lambda>x. ?central x y)) t =
      Some (fold ?F (List.product [kr..int (nat (rows - kr)) - 1]
        [kc..int (nat (cols - kc)) - 1]) t)"
      using kr kc by (intro for_int_nested central) simp_all
    ultimately show ?thesis
      by simp
  qed
  have asserts: "assert_that ndebug (m_rows kern mod 2 = 1 \<and> m_cols kern mod 2 = 1) = Some ()"
    "assert_that ndebug
      (m_rows kern * 2 + 1 < m_rows input \<and> m_cols kern * 2 + 1 < m_cols input) = Some ()"
    "assert_that ndebug (m_rows input = m_rows output \<and> m_cols input = m_cols output) = Some ()"
    using odd size shape by (simp_all add: assert_that_def)
  show ?thesis
    unfolding filter_2d_def band_order_def Let_def asserts
    unfolding rows_def [symmetric] cols_def [symmetric] kr_def [symmetric] kc_def [symmetric]
    unfolding mid starts
    by (simp add: top bottom left right centre)
qed


lemma window_cells_in_range:
  assumes "m_rows kern mod 2 = 1" and "m_cols kern mod 2 = 1"
    and "(yy, xx) \<in> set (window_cells input kern y x)"
  shows "0 \<le> yy \<and> yy < int (m_rows input) \<and> 0 \<le> xx \<and> xx < int (m_cols input)
    \<and> 0 \<le> yy - y + int (m_rows kern div 2) \<and> yy - y + int (m_rows kern div 2) < int (m_rows kern)
    \<and> 0 \<le> xx - x + int (m_cols kern div 2) \<and> xx - x + int (m_cols kern div 2) < int (m_cols kern)"
proof -
  have krows: "int (m_rows kern) = 2 * int (m_rows kern div 2) + 1"
    and kcols: "int (m_cols kern) = 2 * int (m_cols kern div 2) + 1"
    using assms(1,2) by (simp_all add: odd_size)
  from assms(3) have
    "max (y - int (m_rows kern div 2)) 0 \<le> yy"
    "yy \<le> min (y + int (m_rows kern div 2) + 1) (int (m_rows input)) - 1"
    "max (x - int (m_cols kern div 2)) 0 \<le> xx"
    "xx \<le> min (x + int (m_cols kern div 2) + 1) (int (m_cols input)) - 1"
    by (simp_all add: window_cells_def)
  then show ?thesis
    unfolding krows kcols by linarith
qed

lemma set_band_order:
  "set (band_order input kern) =
     {0..int (m_rows kern div 2) - 1} \<times> {0..int (m_cols input) - 1} \<union>
     {int (m_rows input) - int (m_rows kern div 2)..int (m_rows input) - 1} \<times>
       {0..int (m_cols input) - 1} \<union>
     {int (m_rows kern div 2)..int (m_rows input) - int (m_rows kern div 2) - 1} \<times>
       ({0..int (m_rows kern div 2) - 1} \<union>
        {int (m_cols input) - int (m_rows kern div 2)..int (m_cols input) - 1} \<union>
        {int (m_cols kern div 2)..int (m_cols input) - int (m_cols kern div 2) - 1})"
  by (auto simp: band_order_def Let_def)

lemma band_order_in_range:
  assumes "m_rows kern * 2 + 1 < m_rows input" and "m_cols kern * 2 + 1 < m_cols input"
    and "m_rows kern div 2 \<le> m_cols input"
    and "(y, x) \<in> set (band_order input kern)"
  shows "0 \<le> y \<and> y < int (m_rows input) \<and> 0 \<le> x \<and> x < int (m_cols input)"
proof -
  have "2 * int (m_rows kern div 2) < int (m_rows input)"
    "2 * int (m_cols kern div 2) < int (m_cols input)"
    "int (m_rows kern div 2) \<le> int (m_cols input)"
    using assms(1-3) by simp_all
  then show ?thesis
    using assms(4) unfolding set_band_order by auto
qed

lemma band_order_square:
  assumes "m_rows kern * 2 + 1 < m_rows input" and "m_cols kern * 2 + 1 < m_cols input"
    and "m_rows kern = m_cols kern"
  shows "distinct (band_order input kern)"
    and "set (band_order input kern) =
      {0..int (m_rows input) - 1} \<times> {0..int (m_cols input) - 1}"
proof -
  define rows cols k where "rows = int (m_rows input)" and "cols = int (m_cols input)"
    and "k = int (m_rows kern div 2)"
  have k: "0 \<le> k" "2 * k < rows" "2 * k < cols" and kc: "int (m_cols kern div 2) = k"
    using assms by (simp_all add: rows_def cols_def k_def)
  have order: "band_order input kern =
      List.product [0..k - 1] [0..cols - 1] @
      List.product [rows - k..rows - 1] [0..cols - 1] @
      List.product [k..rows - k - 1] [0..k - 1] @
      List.product [k..rows - k - 1] [cols - k..cols - 1] @
      List.product [k..rows - k - 1] [k..cols - k - 1]"
    unfolding band_order_def Let_def kc
    unfolding rows_def [symmetric] cols_def [symmetric] k_def [symmetric] ..
  show "distinct (band_order input kern)"
    unfolding order using k by (auto simp: distinct_product)
  show "set (band_order input kern) = {0..int (m_rows input) - 1} \<times> {0..int (m_cols input) - 1}"
    unfolding order rows_def [symmetric] cols_def [symmetric] using k by auto
qed


lemma fold_ignore_pair: "fold (\<lambda>q. ignore_pair (f q) (g q)) qs s = s"
  by (induction qs) (simp_all add: ignore_pair_def)

lemma fold_filter_at_record:
  "fold (filter_at input output kern ignore_pair record_addr) ps tr =
     tr @ map (\<lambda>p. elem output (fst p) (snd p)) ps"
  by (induction ps arbitrary: tr) (simp_all add: filter_at_def fold_ignore_pair record_addr_def)

lemma elem_inj:
  assumes "m_cols m \<le> m_step m"
    and "0 \<le> x" "x < int (m_cols m)" "0 \<le> x'" "x' < int (m_cols m)"
    and "elem m y x = elem m y' x'"
  shows "y = y' \<and> x = x'"
proof -
  let ?st = "int (m_step m)"
  have eq: "?st * y + x = ?st * y' + x'"
    using assms(6) by (simp add: elem_def row_ptr_def)
  have st: "int (m_cols m) \<le> ?st"
    using assms(1) by simp
  have "y = y'"
  proof (rule ccontr)
    assume "y \<noteq> y'"
    then consider "y < y'" | "y' < y"
      by linarith
    then show False
    proof cases
      case 1
      then have "?st * 1 \<le> ?st * (y' - y)"
        by (intro mult_left_mono) simp_all
      then have "?st \<le> ?st * y' - ?st * y"
        by (simp add: algebra_simps)
      then show False
        using eq st assms(2-5) by linarith
    next
      case 2
      then have "?st * 1 \<le> ?st * (y - y')"
        by (intro mult_left_mono) simp_all
      then have "?st \<le> ?st * y - ?st * y'"
        by (simp add: algebra_simps)
      then show False
        using eq st assms(2-5) by linarith
    qed
  qed
  then show ?thesis
    using eq by simp
qed

text \<open>
  What \<^verbatim>\<open>filter\<close> does, on an image of fewer than \<open>2 ^ 30\<close> rows and columns, when
  every band position is a position of the image, which is so
  when the image has at least \<open>kernel.rows()/2\<close> columns: the run is the fold, over the
  positions in band order, of accumulating over the clipped window and evaluating. Every
  visited position is in the image, and every accumulated pair is an input cell of the
  image with the kernel cell at the same offset from the kernel's centre.
\<close>

theorem filter_2d_clipped_windows:
  assumes "m_rows kern mod 2 = 1" and "m_cols kern mod 2 = 1"
    and "m_rows kern * 2 + 1 < m_rows input" and "m_cols kern * 2 + 1 < m_cols input"
    and "m_rows input = m_rows output" and "m_cols input = m_cols output"
    and "m_rows kern div 2 \<le> m_cols input"
    and "m_rows input < 2 ^ 30" and "m_cols input < 2 ^ 30"
  shows "filter_2d ndebug input output kern accm eval s =
      Some (fold (filter_at input output kern accm eval) (band_order input kern) s)
    \<and> (\<forall>(y, x) \<in> set (band_order input kern).
         0 \<le> y \<and> y < int (m_rows input) \<and> 0 \<le> x \<and> x < int (m_cols input) \<and>
         (\<forall>(yy, xx) \<in> set (window_cells input kern y x).
            0 \<le> yy \<and> yy < int (m_rows input) \<and> 0 \<le> xx \<and> xx < int (m_cols input) \<and>
            0 \<le> yy - y + int (m_rows kern div 2) \<and>
            yy - y + int (m_rows kern div 2) < int (m_rows kern) \<and>
            0 \<le> xx - x + int (m_cols kern div 2) \<and>
            xx - x + int (m_cols kern div 2) < int (m_cols kern)))"
proof (intro conjI ballI)
  show "filter_2d ndebug input output kern accm eval s =
      Some (fold (filter_at input output kern accm eval) (band_order input kern) s)"
    by (rule filter_2d_bands [OF assms])
next
  fix p
  assume p: "p \<in> set (band_order input kern)"
  obtain y x where yx: "p = (y, x)"
    by (cases p)
  have pos: "0 \<le> y \<and> y < int (m_rows input) \<and> 0 \<le> x \<and> x < int (m_cols input)"
    using band_order_in_range [OF assms(3,4,7)] p unfolding yx .
  have win: "case q of (yy, xx) \<Rightarrow>
      0 \<le> yy \<and> yy < int (m_rows input) \<and> 0 \<le> xx \<and> xx < int (m_cols input) \<and>
      0 \<le> yy - y + int (m_rows kern div 2) \<and>
      yy - y + int (m_rows kern div 2) < int (m_rows kern) \<and>
      0 \<le> xx - x + int (m_cols kern div 2) \<and>
      xx - x + int (m_cols kern div 2) < int (m_cols kern)"
    if "q \<in> set (window_cells input kern y x)" for q
  proof -
    obtain yy xx where q: "q = (yy, xx)"
      by (cases q)
    show ?thesis
      unfolding q prod.case
      using that unfolding q by (rule window_cells_in_range [OF assms(1,2)])
  qed
  show "case p of (y, x) \<Rightarrow>
      0 \<le> y \<and> y < int (m_rows input) \<and> 0 \<le> x \<and> x < int (m_cols input) \<and>
      (\<forall>(yy, xx) \<in> set (window_cells input kern y x).
         0 \<le> yy \<and> yy < int (m_rows input) \<and> 0 \<le> xx \<and> xx < int (m_cols input) \<and>
         0 \<le> yy - y + int (m_rows kern div 2) \<and>
         yy - y + int (m_rows kern div 2) < int (m_rows kern) \<and>
         0 \<le> xx - x + int (m_cols kern div 2) \<and>
         xx - x + int (m_cols kern div 2) < int (m_cols kern))"
    unfolding yx prod.case using pos win by blast
qed

theorem filter_2d_clipped_windows_witness:
  "m_rows \<lparr>m_start = 200, m_rows = 3, m_cols = 1, m_step = 1\<rparr> mod 2 = 1
   \<and> m_rows \<lparr>m_start = 200, m_rows = 3, m_cols = 1, m_step = 1\<rparr> * 2 + 1
       < m_rows \<lparr>m_start = 0, m_rows = 8, m_cols = 4, m_step = 4\<rparr>
   \<and> m_rows \<lparr>m_start = 200, m_rows = 3, m_cols = 1, m_step = 1\<rparr> div 2
       \<le> m_cols \<lparr>m_start = 0, m_rows = 8, m_cols = 4, m_step = 4\<rparr>
   \<and> filter_2d False \<lparr>m_start = 0, m_rows = 8, m_cols = 4, m_step = 4\<rparr>
       \<lparr>m_start = 100, m_rows = 8, m_cols = 4, m_step = 4\<rparr>
       \<lparr>m_start = 200, m_rows = 3, m_cols = 1, m_step = 1\<rparr> record_pair ignore_addr []
     = Some (fold (filter_at \<lparr>m_start = 0, m_rows = 8, m_cols = 4, m_step = 4\<rparr>
         \<lparr>m_start = 100, m_rows = 8, m_cols = 4, m_step = 4\<rparr>
         \<lparr>m_start = 200, m_rows = 3, m_cols = 1, m_step = 1\<rparr> record_pair ignore_addr)
       (band_order \<lparr>m_start = 0, m_rows = 8, m_cols = 4, m_step = 4\<rparr>
         \<lparr>m_start = 200, m_rows = 3, m_cols = 1, m_step = 1\<rparr>) [])
   \<and> window_cells \<lparr>m_start = 0, m_rows = 8, m_cols = 4, m_step = 4\<rparr>
       \<lparr>m_start = 200, m_rows = 3, m_cols = 1, m_step = 1\<rparr> 0 3 = [(0, 3), (1, 3)]"
proof -
  let ?I = "\<lparr>m_start = 0, m_rows = 8, m_cols = 4, m_step = 4\<rparr>"
  let ?O = "\<lparr>m_start = 100, m_rows = 8, m_cols = 4, m_step = 4\<rparr>"
  let ?K = "\<lparr>m_start = 200, m_rows = 3, m_cols = 1, m_step = 1\<rparr>"
  have h: "m_rows ?K mod 2 = 1" "m_cols ?K mod 2 = 1"
    "m_rows ?K * 2 + 1 < m_rows ?I" "m_cols ?K * 2 + 1 < m_cols ?I"
    "m_rows ?I = m_rows ?O" "m_cols ?I = m_cols ?O"
    "m_rows ?K div 2 \<le> m_cols ?I" "m_rows ?I < 2 ^ 30" "m_cols ?I < 2 ^ 30"
    by simp_all
  have run: "filter_2d False ?I ?O ?K record_pair ignore_addr [] =
      Some (fold (filter_at ?I ?O ?K record_pair ignore_addr) (band_order ?I ?K) [])"
    using filter_2d_clipped_windows [OF h, of False record_pair ignore_addr "[]"] by blast
  have win: "window_cells ?I ?K 0 3 = [(0, 3), (1, 3)]"
    by code_simp
  show ?thesis
    using h(1,3,7) run win by blast
qed

text \<open>
  For a square kernel, on an image of fewer than \<open>2 ^ 30\<close> rows and columns, the five
  bands partition the image: every output position is
  visited once, and on an output whose rows do not overlap \<^verbatim>\<open>filter\<close> calls the evaluate
  functor exactly once on every output element.
\<close>

theorem filter_2d_square_kernel:
  assumes "m_rows kern mod 2 = 1"
    and "m_rows kern * 2 + 1 < m_rows input" and "m_cols kern * 2 + 1 < m_cols input"
    and "m_rows input = m_rows output" and "m_cols input = m_cols output"
    and "m_rows input < 2 ^ 30" and "m_cols input < 2 ^ 30"
    and "m_rows kern = m_cols kern" and "m_cols output \<le> m_step output"
  shows "filter_2d ndebug input output kern accm eval s =
      Some (fold (filter_at input output kern accm eval) (band_order input kern) s)
    \<and> distinct (band_order input kern)
    \<and> set (band_order input kern) = {0..int (m_rows input) - 1} \<times> {0..int (m_cols input) - 1}
    \<and> (\<forall>y x. 0 \<le> y \<and> y < int (m_rows input) \<and> 0 \<le> x \<and> x < int (m_cols input) \<longrightarrow>
         eval_count ndebug input output kern y x = Some 1)"
proof -
  have odd2: "m_cols kern mod 2 = 1"
    using assms(1,8) by simp
  have wide: "m_rows kern div 2 \<le> m_cols input"
    using assms(3,8) by simp
  have run: "filter_2d ndebug input output kern f e t =
      Some (fold (filter_at input output kern f e) (band_order input kern) t)" for f e t
    by (rule filter_2d_bands [OF assms(1) odd2 assms(2-5) wide assms(6,7)])
  note parts = band_order_square [OF assms(2,3,8)]
  have once: "eval_count ndebug input output kern y x = Some 1"
    if "0 \<le> y" "y < int (m_rows input)" "0 \<le> x" "x < int (m_cols input)" for y x
  proof -
    let ?f = "\<lambda>p. elem output (fst p) (snd p)"
    have mem: "(y, x) \<in> set (band_order input kern)"
      unfolding parts(2) using that by simp
    have "inj_on ?f (set (band_order input kern))"
    proof (rule inj_onI)
      fix p q
      assume "p \<in> set (band_order input kern)" and "q \<in> set (band_order input kern)"
        and same: "?f p = ?f q"
      then have "0 \<le> snd p" "snd p < int (m_cols output)" "0 \<le> snd q" "snd q < int (m_cols output)"
        unfolding parts(2) assms(5) by auto
      from elem_inj [OF assms(9) this same] show "p = q"
        by (simp add: prod_eq_iff)
    qed
    then have "distinct (map ?f (band_order input kern))"
      using parts(1) by (simp add: distinct_map)
    moreover have "?f (y, x) \<in> set (map ?f (band_order input kern))"
      unfolding set_map using mem by (rule imageI)
    ultimately have "count_list (map ?f (band_order input kern)) (elem output y x) = 1"
      by (simp add: count_list_distinct)
    then show ?thesis
      by (simp add: eval_count_def run fold_filter_at_record)
  qed
  show ?thesis
    using run [of accm eval s] parts once by (intro conjI allI impI) simp_all
qed

theorem filter_2d_square_kernel_witness:
  "m_rows \<lparr>m_start = 200, m_rows = 3, m_cols = 3, m_step = 3\<rparr> mod 2 = 1
   \<and> m_rows \<lparr>m_start = 200, m_rows = 3, m_cols = 3, m_step = 3\<rparr>
       = m_cols \<lparr>m_start = 200, m_rows = 3, m_cols = 3, m_step = 3\<rparr>
   \<and> m_rows \<lparr>m_start = 200, m_rows = 3, m_cols = 3, m_step = 3\<rparr> * 2 + 1
       < m_rows \<lparr>m_start = 0, m_rows = 8, m_cols = 8, m_step = 8\<rparr>
   \<and> eval_count False \<lparr>m_start = 0, m_rows = 8, m_cols = 8, m_step = 8\<rparr>
       \<lparr>m_start = 100, m_rows = 8, m_cols = 8, m_step = 8\<rparr>
       \<lparr>m_start = 200, m_rows = 3, m_cols = 3, m_step = 3\<rparr> 3 0 = Some 1"
proof -
  let ?I = "\<lparr>m_start = 0, m_rows = 8, m_cols = 8, m_step = 8\<rparr>"
  let ?O = "\<lparr>m_start = 100, m_rows = 8, m_cols = 8, m_step = 8\<rparr>"
  let ?K = "\<lparr>m_start = 200, m_rows = 3, m_cols = 3, m_step = 3\<rparr>"
  have h: "m_rows ?K mod 2 = 1"
    "m_rows ?K * 2 + 1 < m_rows ?I" "m_cols ?K * 2 + 1 < m_cols ?I"
    "m_rows ?I = m_rows ?O" "m_cols ?I = m_cols ?O"
    "m_rows ?I < 2 ^ 30" "m_cols ?I < 2 ^ 30"
    "m_rows ?K = m_cols ?K" "m_cols ?O \<le> m_step ?O"
    by simp_all
  have "\<forall>y x. 0 \<le> y \<and> y < int (m_rows ?I) \<and> 0 \<le> x \<and> x < int (m_cols ?I) \<longrightarrow>
      eval_count False ?I ?O ?K y x = Some 1"
    using filter_2d_square_kernel [OF h, of False ignore_pair ignore_addr "()"] by blast
  then have "eval_count False ?I ?O ?K 3 0 = Some 1"
    by simp
  then show ?thesis
    using h(1,2,8) by blast
qed

section \<open>The Gaussian generator on square kernels\<close>

lemma gaussian_cols_unfold:
  "dx \<le> c_div cols 2 \<Longrightarrow>
   gaussian_cols rows cols weight kern dy dx h =
     gaussian_cols rows cols weight kern dy (dx + 1)
       (mem_write (mem_write (mem_write (mem_write h
          (elem kern (c_div rows 2 - dy) (c_div rows 2 - dx)) (weight (dx * dx + dy * dy)))
          (elem kern (c_div rows 2 - dy) (c_div rows 2 + dx)) (weight (dx * dx + dy * dy)))
          (elem kern (c_div rows 2 + dy) (c_div rows 2 + dx)) (weight (dx * dx + dy * dy)))
          (elem kern (c_div rows 2 + dy) (c_div rows 2 - dx)) (weight (dx * dx + dy * dy)))"
  by (simp add: gaussian_cols.simps [of rows cols weight kern dy dx] Let_def)

lemma four_writes:
  "mem_write (mem_write (mem_write (mem_write h a1 w) a2 w) a3 w) a4 w a =
     (if a \<in> {a1, a2, a3, a4} then w else h a)"
  by (simp add: mem_write_def)

lemma gaussian_cols_other:
  assumes "\<And>dx. dx0 \<le> dx \<Longrightarrow> dx \<le> c_div cols 2 \<Longrightarrow>
      a \<notin> mirrored_cells kern (c_div rows 2) dy dx"
  shows "gaussian_cols rows cols weight kern dy dx0 h a = h a"
  using assms
proof (induction rows cols weight kern dy dx0 h rule: gaussian_cols.induct)
  case (1 rows cols weight kern dy dx0 h)
  show ?case
  proof (cases "dx0 \<le> c_div cols 2")
    case True
    let ?w = "weight (dx0 * dx0 + dy * dy)"
    let ?h4 = "mem_write (mem_write (mem_write (mem_write h
          (elem kern (c_div rows 2 - dy) (c_div rows 2 - dx0)) ?w)
          (elem kern (c_div rows 2 - dy) (c_div rows 2 + dx0)) ?w)
          (elem kern (c_div rows 2 + dy) (c_div rows 2 + dx0)) ?w)
          (elem kern (c_div rows 2 + dy) (c_div rows 2 - dx0)) ?w"
    have later: "a \<notin> mirrored_cells kern (c_div rows 2) dy dx"
      if "dx0 + 1 \<le> dx" "dx \<le> c_div cols 2" for dx
      using "1.prems" [of dx] that by simp
    have "gaussian_cols rows cols weight kern dy dx0 h a =
        gaussian_cols rows cols weight kern dy (dx0 + 1) ?h4 a"
      by (simp only: gaussian_cols_unfold [OF True])
    also have "\<dots> = ?h4 a"
      using "1.IH" [OF True refl refl refl refl refl later] by simp
    also have "\<dots> = h a"
      using "1.prems" [of dx0] True unfolding four_writes mirrored_cells_def by simp
    finally show ?thesis .
  next
    case False
    then show ?thesis
      by (simp add: gaussian_cols.simps [of rows cols weight kern dy dx0])
  qed
qed


lemma gaussian_cols_written:
  assumes "dx0 \<le> dx" and "dx \<le> c_div cols 2"
    and "a \<in> mirrored_cells kern (c_div rows 2) dy dx"
    and "\<And>dx'. dx < dx' \<Longrightarrow> dx' \<le> c_div cols 2 \<Longrightarrow>
      a \<notin> mirrored_cells kern (c_div rows 2) dy dx'"
  shows "gaussian_cols rows cols weight kern dy dx0 h a = weight (dx * dx + dy * dy)"
  using assms
proof (induction rows cols weight kern dy dx0 h rule: gaussian_cols.induct)
  case (1 rows cols weight kern dy dx0 h)
  have True: "dx0 \<le> c_div cols 2"
    using "1.prems"(1,2) by simp
  let ?w = "weight (dx0 * dx0 + dy * dy)"
  let ?h4 = "mem_write (mem_write (mem_write (mem_write h
        (elem kern (c_div rows 2 - dy) (c_div rows 2 - dx0)) ?w)
        (elem kern (c_div rows 2 - dy) (c_div rows 2 + dx0)) ?w)
        (elem kern (c_div rows 2 + dy) (c_div rows 2 + dx0)) ?w)
        (elem kern (c_div rows 2 + dy) (c_div rows 2 - dx0)) ?w"
  have unfold: "gaussian_cols rows cols weight kern dy dx0 h a =
      gaussian_cols rows cols weight kern dy (dx0 + 1) ?h4 a"
    by (simp only: gaussian_cols_unfold [OF True])
  show ?case
  proof (cases "dx = dx0")
    case same: True
    have "gaussian_cols rows cols weight kern dy (dx0 + 1) ?h4 a = ?h4 a"
      using "1.prems"(4) same by (intro gaussian_cols_other) simp
    also have "\<dots> = weight (dx * dx + dy * dy)"
      using "1.prems"(3) same unfolding four_writes mirrored_cells_def by simp
    finally show ?thesis
      by (simp only: unfold)
  next
    case False
    then have "dx0 + 1 \<le> dx"
      using "1.prems"(1) by simp
    then have "gaussian_cols rows cols weight kern dy (dx0 + 1) ?h4 a = weight (dx * dx + dy * dy)"
      using "1.IH" [OF True refl refl refl refl refl _ "1.prems"(2,3)] "1.prems"(4) by simp
    then show ?thesis
      by (simp only: unfold)
  qed
qed

lemma gaussian_rows_other:
  assumes "\<And>dy dx. dy0 \<le> dy \<Longrightarrow> dy \<le> c_div rows 2 \<Longrightarrow> 0 \<le> dx \<Longrightarrow> dx \<le> c_div cols 2 \<Longrightarrow>
      a \<notin> mirrored_cells kern (c_div rows 2) dy dx"
  shows "gaussian_rows rows cols weight kern dy0 h a = h a"
  using assms
proof (induction rows cols weight kern dy0 h rule: gaussian_rows.induct)
  case (1 rows cols weight kern dy0 h)
  show ?case
  proof (cases "dy0 \<le> c_div rows 2")
    case True
    have "gaussian_rows rows cols weight kern dy0 h a =
        gaussian_rows rows cols weight kern (dy0 + 1)
          (gaussian_cols rows cols weight kern dy0 0 h) a"
      using True by (simp add: gaussian_rows.simps [of rows cols weight kern dy0])
    also have "\<dots> = gaussian_cols rows cols weight kern dy0 0 h a"
      using "1.prems" by (intro "1.IH" [OF True]) simp
    also have "\<dots> = h a"
      using "1.prems" [of dy0] True by (intro gaussian_cols_other) simp
    finally show ?thesis .
  next
    case False
    then show ?thesis
      by (simp add: gaussian_rows.simps [of rows cols weight kern dy0])
  qed
qed

lemma gaussian_rows_written:
  assumes "dy0 \<le> dy" and "dy \<le> c_div rows 2" and "0 \<le> dx" and "dx \<le> c_div cols 2"
    and "a \<in> mirrored_cells kern (c_div rows 2) dy dx"
    and "\<And>dy' dx'. 0 \<le> dy' \<Longrightarrow> dy' \<le> c_div rows 2 \<Longrightarrow> 0 \<le> dx' \<Longrightarrow> dx' \<le> c_div cols 2 \<Longrightarrow>
      (dy', dx') \<noteq> (dy, dx) \<Longrightarrow> a \<notin> mirrored_cells kern (c_div rows 2) dy' dx'"
    and "0 \<le> dy0"
  shows "gaussian_rows rows cols weight kern dy0 h a = weight (dx * dx + dy * dy)"
  using assms
proof (induction rows cols weight kern dy0 h rule: gaussian_rows.induct)
  case (1 rows cols weight kern dy0 h)
  have True: "dy0 \<le> c_div rows 2"
    using "1.prems"(1,2) by simp
  let ?h1 = "gaussian_cols rows cols weight kern dy0 0 h"
  have unfold: "gaussian_rows rows cols weight kern dy0 h a =
      gaussian_rows rows cols weight kern (dy0 + 1) ?h1 a"
    using True by (simp add: gaussian_rows.simps [of rows cols weight kern dy0])
  show ?case
  proof (cases "dy = dy0")
    case same: True
    have "gaussian_rows rows cols weight kern (dy0 + 1) ?h1 a = ?h1 a"
    proof (rule gaussian_rows_other)
      fix dy' dx'
      assume "dy0 + 1 \<le> dy'" "dy' \<le> c_div rows 2" "0 \<le> dx'" "dx' \<le> c_div cols 2"
      then show "a \<notin> mirrored_cells kern (c_div rows 2) dy' dx'"
        using "1.prems"(6) [of dy' dx'] "1.prems"(7) same by simp
    qed
    also have "\<dots> = weight (dx * dx + dy * dy)"
      unfolding same [symmetric]
    proof (rule gaussian_cols_written)
      show "0 \<le> dx" "dx \<le> c_div cols 2" "a \<in> mirrored_cells kern (c_div rows 2) dy dx"
        by (rule "1.prems"(3) "1.prems"(4) "1.prems"(5))+
      fix dx'
      assume "dx < dx'" "dx' \<le> c_div cols 2"
      then show "a \<notin> mirrored_cells kern (c_div rows 2) dy dx'"
        using "1.prems"(6) [of dy dx'] "1.prems"(1,2,3,7) by simp
    qed
    finally show ?thesis
      by (simp only: unfold)
  next
    case False
    then have next_row: "dy0 + 1 \<le> dy"
      using "1.prems"(1) by simp
    have "gaussian_rows rows cols weight kern (dy0 + 1) ?h1 a = weight (dx * dx + dy * dy)"
      using "1.prems"(7)
      by (intro "1.IH" [OF True next_row "1.prems"(2-5)] "1.prems"(6)) simp_all
    then show ?thesis
      by (simp only: unfold)
  qed
qed


lemma c_div_nonneg: "0 \<le> n \<Longrightarrow> c_div n 2 = n div 2"
  by (cases "n = 0") (simp_all add: c_div_def)

text \<open>
  For an odd \<open>n\<close> whose square fits an \<^verbatim>\<open>int\<close>, \<^verbatim>\<open>gaussian_kernel(n, n, sigma)\<close> returns an
  \<open>n \<times> n\<close> kernel in newly allocated storage whose cell \<open>(r, c)\<close> holds the weight of the
  squared distance of \<open>(r, c)\<close> from the centre \<open>(n/2, n/2)\<close>; memory allocated before the
  call is unchanged.
\<close>

theorem gaussian_kernel_square:
  assumes "0 \<le> n" and "n mod 2 = 1" and "n * n < 2 ^ 31"
  shows "\<exists>k h'. gaussian_kernel n n weight h = Some (k, h')
    \<and> k = \<lparr>m_start = next_free h, m_rows = nat n, m_cols = nat n, m_step = nat n\<rparr>
    \<and> (\<forall>r c. 0 \<le> r \<and> r < n \<and> 0 \<le> c \<and> c < n \<longrightarrow>
         contents h' (elem k r c) =
           weight ((c - n div 2) * (c - n div 2) + (r - n div 2) * (r - n div 2)))
    \<and> (\<forall>a. a < next_free h \<longrightarrow> contents h' a = contents h a)"
proof -
  define m where "m = n div 2"
  let ?k = "\<lparr>m_start = next_free h, m_rows = nat n, m_cols = nat n, m_step = nat n\<rparr>"
  let ?h' = "h\<lparr>next_free := next_free h + n * n,
    contents := gaussian_rows n n weight ?k 0 (contents h)\<rparr>"
  have n: "n = 2 * m + 1" and m: "0 \<le> m"
    using assms(1,2) unfolding m_def by presburger+
  have half: "c_div n 2 = m"
    using assms(1) by (simp add: c_div_nonneg m_def)
  have "n * 1 \<le> n * n"
    using assms(1) n m by (intro mult_left_mono) simp_all
  then have small: "n < 2 ^ 64" "n * n < 2 ^ 64"
    using assms(3) by simp_all
  have sizes: "to_size_t n = nat n"
    using assms(1) small by (simp_all add: to_size_t_nat)
  have count: "to_int (n * n) = n * n"
    using assms(3) by (intro to_int_small) simp_all
  have run: "gaussian_kernel n n weight h = Some (?k, ?h')"
    using assms(1) by (simp add: gaussian_kernel_def create_def new_array_def sizes count)
  have cell: "elem ?k y x = next_free h + n * y + x" for y x
    using assms(1) by (simp add: elem_def row_ptr_def)
  have only: "dy' = \<bar>r - m\<bar> \<and> dx' = \<bar>c - m\<bar>"
    if "0 \<le> r" "r < n" "0 \<le> c" "c < n" "0 \<le> dy'" "dy' \<le> m" "0 \<le> dx'" "dx' \<le> m"
      "elem ?k r c \<in> mirrored_cells ?k m dy' dx'" for r c dy' dx'
  proof -
    from that(9) obtain y x where yx: "elem ?k r c = elem ?k y x"
      and y: "y = m - dy' \<or> y = m + dy'" and x: "x = m - dx' \<or> x = m + dx'"
      unfolding mirrored_cells_def by blast
    have "0 \<le> x" "x < int (m_cols ?k)"
      using x that(7,8) n assms(1) by auto
    moreover have "0 \<le> c" "c < int (m_cols ?k)"
      using that(3,4) assms(1) by simp_all
    moreover have "m_cols ?k \<le> m_step ?k"
      by simp
    ultimately have "r = y \<and> c = x"
      using elem_inj [of ?k c x r y] yx by blast
    then show ?thesis
      using y x that(5,7) by auto
  qed
  have written: "contents ?h' (elem ?k r c) =
      weight ((c - n div 2) * (c - n div 2) + (r - n div 2) * (r - n div 2))"
    if "0 \<le> r" "r < n" "0 \<le> c" "c < n" for r c
  proof -
    let ?dy = "\<bar>r - m\<bar>" and ?dx = "\<bar>c - m\<bar>"
    have range: "0 \<le> ?dy" "?dy \<le> m" "0 \<le> ?dx" "?dx \<le> m"
      using that n by simp_all
    have here: "elem ?k r c \<in> mirrored_cells ?k m ?dy ?dx"
    proof -
      have "r = m - ?dy \<or> r = m + ?dy" "c = m - ?dx \<or> c = m + ?dx"
        by linarith+
      then show ?thesis
        unfolding mirrored_cells_def by auto
    qed
    have "gaussian_rows n n weight ?k 0 (contents h) (elem ?k r c) = weight (?dx * ?dx + ?dy * ?dy)"
    proof (rule gaussian_rows_written)
      show "0 \<le> ?dy" "?dy \<le> c_div n 2" "0 \<le> ?dx" "?dx \<le> c_div n 2" "(0 :: int) \<le> 0"
        using range by (simp_all add: half)
      show "elem ?k r c \<in> mirrored_cells ?k (c_div n 2) ?dy ?dx"
        using here by (simp add: half)
      fix dy' dx'
      assume "0 \<le> dy'" "dy' \<le> c_div n 2" "0 \<le> dx'" "dx' \<le> c_div n 2"
        and differ: "(dy', dx') \<noteq> (?dy, ?dx)"
      then show "elem ?k r c \<notin> mirrored_cells ?k (c_div n 2) dy' dx'"
        using only [OF that, of dy' dx'] unfolding half by blast
    qed
    moreover have "?dx * ?dx = (c - m) * (c - m)" "?dy * ?dy = (r - m) * (r - m)"
      by (simp_all add: abs_mult_self_eq)
    ultimately show ?thesis
      by (simp add: m_def)
  qed
  have kept: "contents ?h' a = contents h a" if "a < next_free h" for a
  proof -
    have "gaussian_rows n n weight ?k 0 (contents h) a = contents h a"
    proof (rule gaussian_rows_other)
      fix dy dx
      assume "0 \<le> dy" "dy \<le> c_div n 2" "0 \<le> dx" "dx \<le> c_div n 2"
      then have d: "0 \<le> m - dy" "0 \<le> m - dx" "0 \<le> m + dy" "0 \<le> m + dx"
        unfolding half by simp_all
      have "next_free h \<le> elem ?k y x" if "0 \<le> y" "0 \<le> x" for y x
        using that assms(1) unfolding cell by (simp add: mult_nonneg_nonneg)
      then have "\<forall>e \<in> mirrored_cells ?k m dy dx. next_free h \<le> e"
        unfolding mirrored_cells_def using d by simp
      then show "a \<notin> mirrored_cells ?k (c_div n 2) dy dx"
        using \<open>a < next_free h\<close> unfolding half by force
    qed
    then show ?thesis by simp
  qed
  show ?thesis
    using run written kept by blast
qed

theorem gaussian_kernel_square_witness:
  "map_option (\<lambda>(k, h'). (contents h' 0, contents h' 4))
     (gaussian_kernel 3 3 (\<lambda>d. d) \<lparr>contents = \<lambda>a. 0, next_free = 0\<rparr>)
   = Some (2 :: int, 0 :: int)"
proof -
  let ?h = "\<lparr>contents = \<lambda>a. 0 :: int, next_free = 0\<rparr>"
  from gaussian_kernel_square [of 3 "\<lambda>d. d" ?h]
  obtain k h' where run: "gaussian_kernel 3 3 (\<lambda>d. d) ?h = Some (k, h')"
    and k: "k = \<lparr>m_start = next_free ?h, m_rows = nat 3, m_cols = nat 3, m_step = nat 3\<rparr>"
    and cells: "\<And>r c. 0 \<le> r \<and> r < 3 \<and> 0 \<le> c \<and> c < 3 \<Longrightarrow>
      contents h' (elem k r c) = (c - 3 div 2) * (c - 3 div 2) + (r - 3 div 2) * (r - 3 div 2)"
    by auto
  have "elem k 0 0 = 0" "elem k 1 1 = 4"
    unfolding k by (simp_all add: elem_def row_ptr_def)
  with cells [of 0 0] cells [of 1 1] have "contents h' 0 = 2" "contents h' 4 = 0"
    by simp_all
  then show ?thesis
    unfolding run by simp
qed

end
